theory Spec2Isabelle
  imports Complex_Main "HOL-Library.AList"
begin

section \<open>Errors raised by the divergence pipeline\<close>

text \<open>
  Every \<^verbatim>\<open>raise\<close> of \<^verbatim>\<open>skl_groups/divergences/knn.py\<close> is a constructor; the
  arguments are the values the source formats into the message.
\<close>

datatype error =
    DependencyCycle
      \<comment> \<open>\<^verbatim>\<open>ValueError("dependency cycle found")\<close>\<close>
  | NotKnownFunction string
      \<comment> \<open>\<^verbatim>\<open>"'{}' is not a known function type".format(func_name)\<close>\<close>
  | NeedsAlpha string string
      \<comment> \<open>\<^verbatim>\<open>"{} needs alpha but not passed in spec '{}'".format(func_name, spec)\<close>\<close>
  | DoesntNeedAlpha string string
      \<comment> \<open>\<^verbatim>\<open>"{} doesn't need alpha but is passed in spec '{}'"\<close>\<close>
  | CouldNotConvertFloat string
      \<comment> \<open>the \<^verbatim>\<open>ValueError\<close> of \<^verbatim>\<open>float(alpha)\<close>, which quotes the alpha text\<close>
  | PassedMoreThanOnce string
      \<comment> \<open>\<^verbatim>\<open>"{} passed more than once".format(func_name)\<close>\<close>
  | AlphaPassedMoreThanOnce string "real option"
      \<comment> \<open>\<^verbatim>\<open>"{} with alpha {} passed more than once".format(func_name, alpha)\<close>\<close>
  | PyKeyError
      \<comment> \<open>a dict lookup of a missing key, outside any \<^verbatim>\<open>try\<close>\<close>
  | PyAttributeError
      \<comment> \<open>\<^verbatim>\<open>None.index\<close>: the alphas of a function without alpha\<close>
  | PyIndexError
      \<comment> \<open>a list read out of range\<close>
  | PyValueError
      \<comment> \<open>\<^verbatim>\<open>list.index\<close> of a missing value, an unpacking of the wrong length, numpy's
          \<^verbatim>\<open>min\<close> of an empty array or a failed broadcast\<close>
  | PyTypeError
      \<comment> \<open>\<^verbatim>\<open>None\<close> iterated or subscripted\<close>
  | KsNotPositive int
      \<comment> \<open>\<^verbatim>\<open>"Ks should be positive; got {}".format(Ks.min())\<close>\<close>
  | InvalidFlannArgs
      \<comment> \<open>\<^verbatim>\<open>TypeError("flann_args contains an invalid argument: ...")\<close>\<close>
  | InsufficientPoints int nat
      \<comment> \<open>\<^verbatim>\<open>"asked for K = {}, but there's a bag with only {} points"\<close>\<close>
  | KTooSmallForJensenShannon int nat nat int
      \<comment> \<open>\<^verbatim>\<open>"K={} is too small for Jensen-Shannon estimator with n={}, m={}; must be at
          least {}"\<close>\<close>
  | ExternalError
      \<comment> \<open>an exception of a collaborator that is not among the sources\<close>

section \<open>Topological sort (\<^verbatim>\<open>topological_sort\<close>, lines 742--773)\<close>

text \<open>
  The dependency dict \<^verbatim>\<open>child => set of parents\<close> is an association list in
  insertion order, a set of parents a list. \<^verbatim>\<open>available\<close> is a Python set:
  \<^verbatim>\<open>add\<close> keeps one copy of an element and \<^verbatim>\<open>pop\<close> removes an arbitrary one.
  The arbitrary choice is the parameter \<open>pick\<close>, which names an index into the
  current elements, so that a statement for all \<open>pick\<close> covers every behaviour of
  \<^verbatim>\<open>pop\<close>.
\<close>

type_synonym 'n deps = "('n \<times> 'n list) list"

definition set_add :: "'n \<Rightarrow> 'n list \<Rightarrow> 'n list" where
  "set_add n available = (if n \<in> set available then available else available @ [n])"

definition move_available :: "'n list \<Rightarrow> 'n deps \<Rightarrow> 'n list \<times> 'n deps" where
  "move_available available deps =
     (let to_delete = map fst (filter (\<lambda>(n, parents). parents = []) deps)
      in (fold set_add to_delete available,
          filter (\<lambda>(n, parents). n \<notin> set to_delete) deps))"

definition set_pop :: "('n list \<Rightarrow> nat) \<Rightarrow> 'n list \<Rightarrow> 'n \<times> 'n list" where
  "set_pop pick available =
     (let n = available ! (pick available mod length available)
      in (n, removeAll n available))"

definition discard_all :: "'n \<Rightarrow> 'n deps \<Rightarrow> 'n deps" where
  "discard_all n deps = map (\<lambda>(c, parents). (c, removeAll n parents)) deps"

lemma length_fold_set_add:
  "length (fold set_add ns available) \<le> length available + length ns"
proof (induction ns arbitrary: available)
  case Nil
  show ?case by simp
next
  case (Cons n ns)
  have "length (set_add n available) \<le> Suc (length available)"
    by (simp add: set_add_def)
  with Cons [of "set_add n available"] show ?case by simp
qed

lemma length_filter_keys:
  "length (filter (\<lambda>(n, parents). n \<notin> set (map fst (filter P deps))) deps)
     + length (filter P deps) \<le> length deps"
proof -
  have "length (filter (\<lambda>(n, parents). n \<notin> set (map fst (filter P deps))) deps)
          \<le> length (filter (\<lambda>x. \<not> P x) deps)"
  proof -
    have "filter (\<lambda>(n, parents). n \<notin> set (map fst (filter P deps))) deps
            = filter (\<lambda>(n, parents). n \<notin> set (map fst (filter P deps)))
                (filter (\<lambda>x. \<not> P x) deps)"
      by (auto intro!: filter_cong simp: image_iff)
    then show ?thesis
      by (metis length_filter_le)
  qed
  moreover have "length (filter (\<lambda>x. \<not> P x) deps) + length (filter P deps) = length deps"
    using sum_length_filter_compl [of P deps] by simp
  ultimately show ?thesis by simp
qed

lemma move_available_measure:
  "move_available available deps = (available', deps') \<Longrightarrow>
     length available' + length deps' \<le> length available + length deps"
proof -
  assume m: "move_available available deps = (available', deps')"
  define P where "P = (\<lambda>(n :: 'a, parents :: 'a list). parents = [])"
  have a: "available' = fold set_add (map fst (filter P deps)) available"
    and d: "deps' = filter (\<lambda>(n, parents). n \<notin> set (map fst (filter P deps))) deps"
    using m by (simp_all add: move_available_def P_def Let_def)
  have "length available' \<le> length available + length (filter P deps)"
    using length_fold_set_add [of "map fst (filter P deps)" available] a by simp
  moreover have "length deps' + length (filter P deps) \<le> length deps"
    using length_filter_keys [of P deps] d by simp
  ultimately show ?thesis by simp
qed

lemma set_pop_measure:
  "available \<noteq> [] \<Longrightarrow> set_pop pick available = (n, available') \<Longrightarrow>
     length available' < length available"
proof -
  assume ne: "available \<noteq> []" and p: "set_pop pick available = (n, available')"
  have "n \<in> set available"
    using ne p by (auto simp: set_pop_def Let_def)
  moreover have "available' = removeAll n available"
    using p by (auto simp: set_pop_def Let_def)
  ultimately show ?thesis
    by (simp add: length_removeAll_less)
qed

function sort_loop ::
  "('n list \<Rightarrow> nat) \<Rightarrow> 'n list \<Rightarrow> 'n list \<Rightarrow> 'n deps \<Rightarrow> 'n list \<times> 'n list \<times> 'n deps"
where
  "sort_loop pick order available deps =
     (if available = [] then (order, available, deps)
      else
        (case set_pop pick available of (n, available1) \<Rightarrow>
           (case move_available available1 (discard_all n deps) of (available2, deps2) \<Rightarrow>
              sort_loop pick (order @ [n]) available2 deps2)))"
  by pat_completeness auto
termination
proof (relation "measure (\<lambda>(pick, order, available, deps). length available + length deps)",
    goal_cases)
  case 1
  show ?case by simp
next
  case (2 pick order available deps n available1 available2 deps2)
  have "length available1 < length available"
    using 2 set_pop_measure [of available pick n available1] by simp
  moreover have "length available2 + length deps2 \<le> length available1 + length (discard_all n deps)"
    using 2 move_available_measure [of available1 "discard_all n deps" available2 deps2] by simp
  moreover have "length (discard_all n deps) = length deps"
    by (simp add: discard_all_def)
  ultimately show ?case by simp
qed

declare sort_loop.simps [simp del]

definition topological_sort :: "('n list \<Rightarrow> nat) \<Rightarrow> 'n deps \<Rightarrow> error + 'n list" where
  "topological_sort pick deps =
     (case move_available [] deps of (available0, deps0) \<Rightarrow>
        (case sort_loop pick [] available0 deps0 of (order, available, deps1) \<Rightarrow>
           if available \<noteq> [] then Inl DependencyCycle else Inr order))"

section \<open>The estimator registry (lines 297--739)\<close>

text \<open>
  The functions of \<^verbatim>\<open>func_mapping\<close> and the attributes the resolver reads with
  \<^verbatim>\<open>getattr\<close> and \<^verbatim>\<open>hasattr\<close>. Alphas are Python floats; they are only parsed,
  stored and compared for equality, and are modelled as reals (so \<^verbatim>\<open>nan\<close>, which is
  not equal to itself, is outside the model).
\<close>

datatype func =
    Linear | Kl | Alpha_div | Jensen_shannon_core
  | Bhattacharyya | Hellinger | Renyi | Tsallis | L2 | Jensen_shannon

datatype req_alpha =
    NoAlpha  \<comment> \<open>\<^verbatim>\<open>None\<close>\<close>
  | Scalar real  \<comment> \<open>a scalar alpha value\<close>
  | Callable_identity  \<comment> \<open>the callable \<^verbatim>\<open>identity\<close> of \<^verbatim>\<open>..utils\<close>, which returns its argument\<close>

datatype MetaRequirement =
  MetaRequirement (req_func: func) (req_alpha: req_alpha) (needs_transpose: bool)

text \<open>
  Modelled from the spec: the attributes of \<^verbatim>\<open>kl\<close>, which is imported from
  \<^verbatim>\<open>._knn\<close> and is not among the sources. It is a base estimator without a
  parameter (\<^verbatim>\<open>getattr(func, 'needs_alpha', False)\<close> and no \<^verbatim>\<open>needs_results\<close>).
\<close>

fun needs_alpha :: "func \<Rightarrow> bool" where
  "needs_alpha Alpha_div = True"
| "needs_alpha Renyi = True"
| "needs_alpha Tsallis = True"
| "needs_alpha _ = False"

fun needs_results :: "func \<Rightarrow> MetaRequirement list option" where
  "needs_results Bhattacharyya = Some [MetaRequirement Alpha_div (Scalar 0.5) False]"
| "needs_results Hellinger = Some [MetaRequirement Alpha_div (Scalar 0.5) False]"
| "needs_results Renyi = Some [MetaRequirement Alpha_div Callable_identity False]"
| "needs_results Tsallis = Some [MetaRequirement Alpha_div Callable_identity False]"
| "needs_results L2 = Some [MetaRequirement Linear NoAlpha True]"
| "needs_results Jensen_shannon = Some [MetaRequirement Jensen_shannon_core NoAlpha True]"
| "needs_results _ = None"

fun needs_rhos :: "func \<Rightarrow> bool \<times> bool" where
  "needs_rhos L2 = (True, True)"
| "needs_rhos Jensen_shannon = (True, True)"
| "needs_rhos _ = (False, False)"

fun needs_all_ks :: "func \<Rightarrow> bool" where
  "needs_all_ks Jensen_shannon_core = True"
| "needs_all_ks _ = False"

definition func_mapping :: "(string \<times> func) list" where
  "func_mapping =
     [(''linear'', Linear), (''kl'', Kl), (''alpha'', Alpha_div),
      (''bc'', Bhattacharyya), (''hellinger'', Hellinger), (''renyi'', Renyi),
      (''tsallis'', Tsallis), (''l2'', L2), (''js-core'', Jensen_shannon_core),
      (''js'', Jensen_shannon), (''jensen-shannon'', Jensen_shannon)]"

section \<open>The specification resolver (\<^verbatim>\<open>_parse_specs\<close>, lines 776--956)\<close>

text \<open>
  \<^verbatim>\<open>_FuncInfo\<close> and \<^verbatim>\<open>_MetaFuncInfo\<close>. While specs are registered a position is
  \<^verbatim>\<open>None\<close> or an index (\<open>int option\<close>); the numbering loop replaces every
  \<^verbatim>\<open>None\<close>, after which positions are integers. \<^verbatim>\<open>deps\<close> stays \<^verbatim>\<open>[]\<close> until
  the positions are numbered, so it is a field of the final record only. A dict is an
  association list in insertion order: \<^verbatim>\<open>d[k] = v\<close> is \<open>AList.update\<close>, which
  replaces in place or appends.
\<close>

record 'p FuncInfo =
  alphas :: "real option list option"
  pos :: "'p list"

record 'p MetaFuncInfo = "'p FuncInfo" +
  deps :: "'p list"

record parse_state =
  funcs :: "(func \<times> int option FuncInfo) list"
  metas :: "(func \<times> int option FuncInfo) list"
  meta_deps :: "func deps"

fun fold_err :: "('x \<Rightarrow> 's \<Rightarrow> error + 's) \<Rightarrow> 'x list \<Rightarrow> 's \<Rightarrow> error + 's" where
  "fold_err f [] s = Inr s"
| "fold_err f (x # xs) s = (case f x s of Inl e \<Rightarrow> Inl e | Inr s' \<Rightarrow> fold_err f xs s')"

lemma fold_err_cong [fundef_cong]:
  "xs = ys \<Longrightarrow> s = t \<Longrightarrow> (\<And>x u. x \<in> set ys \<Longrightarrow> f x u = g x u) \<Longrightarrow>
     fold_err f xs s = fold_err g ys t"
proof (induction ys arbitrary: xs s t)
  case Nil
  then show ?case by simp
next
  case (Cons y ys)
  have step: "f y t = g y t"
    using Cons.prems(3) by simp
  have rest: "\<And>u. fold_err f ys u = fold_err g ys u"
    using Cons.IH Cons.prems(3) by simp
  show ?case
    using Cons.prems(1,2) step rest by (simp split: sum.splits)
qed

definition eval_req_alpha :: "req_alpha \<Rightarrow> real option \<Rightarrow> real option" where
  \<comment> \<open>\<^verbatim>\<open>req.alpha(alpha) if callable(req.alpha) else req.alpha\<close>\<close>
  "eval_req_alpha ra alpha =
     (case ra of NoAlpha \<Rightarrow> None | Scalar a \<Rightarrow> Some a | Callable_identity \<Rightarrow> alpha)"

definition dd_add :: "func \<Rightarrow> func \<Rightarrow> func deps \<Rightarrow> func deps" where
  \<comment> \<open>\<^verbatim>\<open>meta_deps[func].add(req.func)\<close> on a \<^verbatim>\<open>defaultdict(set)\<close>\<close>
  "dd_add f r md =
     (case map_of md f of
        None \<Rightarrow> AList.update f [r] md
      | Some parents \<Rightarrow> AList.update f (set_add r parents) md)"

definition dd_touch :: "func \<Rightarrow> func deps \<Rightarrow> func deps" where
  \<comment> \<open>\<^verbatim>\<open>meta_deps[req.func]\<close>: the lookup creates a missing entry\<close>
  "dd_touch f md = (case map_of md f of None \<Rightarrow> AList.update f [] md | Some _ \<Rightarrow> md)"

definition index_of :: "'x list \<Rightarrow> 'x \<Rightarrow> nat option" where
  \<comment> \<open>\<^verbatim>\<open>list.index\<close>: the first index, \<^verbatim>\<open>ValueError\<close> (here \<open>None\<close>) when absent\<close>
  "index_of xs x =
     (if x \<in> set xs then Some (length (takeWhile (\<lambda>y. y \<noteq> x) xs)) else None)"

fun rank :: "func \<Rightarrow> nat" where
  "rank f = (case needs_results f of None \<Rightarrow> 0 | Some _ \<Rightarrow> 1)"

lemma rank_requirement:
  "needs_results f = Some reqs \<Longrightarrow> req \<in> set reqs \<Longrightarrow> rank (req_func req) < rank f"
  by (cases f) auto

definition get_dict :: "parse_state \<Rightarrow> func \<Rightarrow> (func \<times> int option FuncInfo) list" where
  \<comment> \<open>\<^verbatim>\<open>d = metas if is_meta else funcs\<close>\<close>
  "get_dict st f = (case needs_results f of None \<Rightarrow> funcs st | Some _ \<Rightarrow> metas st)"

definition put_dict :: "func \<Rightarrow> int option FuncInfo \<Rightarrow> parse_state \<Rightarrow> parse_state" where
  \<comment> \<open>\<^verbatim>\<open>d[func] = info\<close>, also for the in-place updates of \<^verbatim>\<open>info = d[func]\<close>\<close>
  "put_dict f info st =
     (case needs_results f of
        None \<Rightarrow> st\<lparr>funcs := AList.update f info (funcs st)\<rparr>
      | Some _ \<Rightarrow> st\<lparr>metas := AList.update f info (metas st)\<rparr>)"

function add_func ::
  "string \<Rightarrow> func \<Rightarrow> real option \<Rightarrow> int option \<Rightarrow> parse_state \<Rightarrow> error + parse_state"
where
  "add_func func_name f alpha p st =
     (case map_of (get_dict st f) f of
        None \<Rightarrow>
          (let st0 = put_dict f
                 \<lparr>alphas = (if needs_alpha f then Some [alpha] else None), pos = [p]\<rparr> st
           in case needs_results f of
                None \<Rightarrow> Inr st0
              | Some reqs \<Rightarrow>
                  fold_err
                    (\<lambda>req st1.
                       case add_func func_name (req_func req)
                              (eval_req_alpha (req_alpha req) alpha) None st1 of
                         Inl e \<Rightarrow> Inl e
                       | Inr st2 \<Rightarrow>
                           Inr (st2\<lparr>meta_deps :=
                                  dd_touch (req_func req)
                                    (dd_add f (req_func req) (meta_deps st2))\<rparr>))
                    reqs st0)
      | Some info \<Rightarrow>
          if \<not> needs_alpha f then
            (case p of
               None \<Rightarrow> Inr st
             | Some _ \<Rightarrow>
                 if pos info \<noteq> [None] then Inl (PassedMoreThanOnce func_name)
                 else Inr (put_dict f (info\<lparr>pos := (pos info)[0 := p]\<rparr>) st))
          else
            (case alphas info of
               None \<Rightarrow> Inl PyAttributeError
             | Some als \<Rightarrow>
                 (case index_of als alpha of
                    None \<Rightarrow>
                      (let st0 = put_dict f
                             (info\<lparr>alphas := Some (als @ [alpha]), pos := pos info @ [p]\<rparr>) st
                       in case needs_results f of
                            None \<Rightarrow> Inr st0
                          | Some reqs \<Rightarrow>
                              fold_err
                                (\<lambda>req st1. add_func func_name (req_func req)
                                   (eval_req_alpha (req_alpha req) alpha) None st1)
                                reqs st0)
                  | Some idx \<Rightarrow>
                      (case p of
                         None \<Rightarrow> Inr st
                       | Some _ \<Rightarrow>
                           if idx \<ge> length (pos info) then Inl PyIndexError
                           else if pos info ! idx \<noteq> None
                           then Inl (AlphaPassedMoreThanOnce func_name alpha)
                           else Inr (put_dict f (info\<lparr>pos := (pos info)[idx := p]\<rparr>) st)))))"
  by pat_completeness auto
termination
proof (relation "measure (\<lambda>(func_name, f, alpha, p, st). rank f)", goal_cases)
  case 1
  show ?case by simp
next
  case (2 func_name f alpha p st st0 reqs req st1)
  then show ?case
    using rank_requirement [of f reqs req] by simp
next
  case (3 func_name f alpha p st info als st0 reqs req st1)
  then show ?case
    using rank_requirement [of f reqs req] by simp
qed

declare add_func.simps [simp del]

text \<open>
  The loop over the specs (lines 898--918). \<^verbatim>\<open>float\<close> is the Python builtin and is
  the parameter \<open>py_float\<close>, \<open>None\<close> where the builtin raises \<^verbatim>\<open>ValueError\<close>.
\<close>

definition split_spec :: "string \<Rightarrow> string \<times> string option" where
  \<comment> \<open>\<^verbatim>\<open>(spec.split(':', 1) + [None])[:2]\<close>\<close>
  "split_spec spec =
     (if CHR '':'' \<in> set spec
      then (takeWhile (\<lambda>c. c \<noteq> CHR '':'') spec,
            Some (tl (dropWhile (\<lambda>c. c \<noteq> CHR '':'') spec)))
      else (spec, None))"

definition convert_alpha :: "(string \<Rightarrow> real option) \<Rightarrow> string option \<Rightarrow> error + real option" where
  \<comment> \<open>\<^verbatim>\<open>if alpha is not None: alpha = float(alpha)\<close>\<close>
  "convert_alpha py_float alpha_text =
     (case alpha_text of
        None \<Rightarrow> Inr None
      | Some t \<Rightarrow>
          (case py_float t of None \<Rightarrow> Inl (CouldNotConvertFloat t) | Some a \<Rightarrow> Inr (Some a)))"

definition check_spec ::
  "(string \<Rightarrow> real option) \<Rightarrow> string \<Rightarrow> error + string \<times> func \<times> real option"
where
  \<comment> \<open>lines 900--916: the name, the function and the alpha of a spec, or the error\<close>
  "check_spec py_float spec =
     (case split_spec spec of (func_name, alpha_text) \<Rightarrow>
        (case convert_alpha py_float alpha_text of
           Inl e \<Rightarrow> Inl e
         | Inr alpha \<Rightarrow>
             (case map_of func_mapping func_name of
                None \<Rightarrow> Inl (NotKnownFunction func_name)
              | Some f \<Rightarrow>
                  if needs_alpha f \<and> alpha = None then Inl (NeedsAlpha func_name spec)
                  else if \<not> needs_alpha f \<and> alpha \<noteq> None
                  then Inl (DoesntNeedAlpha func_name spec)
                  else Inr (func_name, f, alpha))))"

definition add_spec ::
  "(string \<Rightarrow> real option) \<Rightarrow> nat \<Rightarrow> string \<Rightarrow> parse_state \<Rightarrow> error + parse_state"
where
  "add_spec py_float i spec st =
     (case check_spec py_float spec of
        Inl e \<Rightarrow> Inl e
      | Inr (func_name, f, alpha) \<Rightarrow> add_func func_name f alpha (Some (int i)) st)"

fun add_specs ::
  "(string \<Rightarrow> real option) \<Rightarrow> nat \<Rightarrow> string list \<Rightarrow> parse_state \<Rightarrow> error + parse_state"
where
  "add_specs py_float i [] st = Inr st"
| "add_specs py_float i (spec # specs) st =
     (case add_spec py_float i spec st of
        Inl e \<Rightarrow> Inl e
      | Inr st' \<Rightarrow> add_specs py_float (Suc i) specs st')"

text \<open>
  Numbering of the dependency-only positions (lines 920--925). The counter is the
  value the next call of \<^verbatim>\<open>next(meta_counter)\<close> returns.
\<close>

fun number_pos :: "int \<Rightarrow> int option list \<Rightarrow> int \<times> int list" where
  "number_pos c [] = (c, [])"
| "number_pos c (None # ps) = (case number_pos (c - 1) ps of (c', qs) \<Rightarrow> (c', c # qs))"
| "number_pos c (Some p # ps) = (case number_pos c ps of (c', qs) \<Rightarrow> (c', p # qs))"

fun number_infos ::
  "int \<Rightarrow> (func \<times> int option FuncInfo) list \<Rightarrow> int \<times> (func \<times> int FuncInfo) list"
where
  "number_infos c [] = (c, [])"
| "number_infos c ((f, info) # rest) =
     (case number_pos c (pos info) of (c1, qs) \<Rightarrow>
        (case number_infos c1 rest of (c2, rest') \<Rightarrow>
           (c2, (f, \<lparr>alphas = alphas info, pos = qs\<rparr>) # rest')))"

text \<open>The dependencies of the metas (lines 927--949).\<close>

definition req_info ::
  "(func \<times> int FuncInfo) list \<Rightarrow> (func \<times> int FuncInfo) list \<Rightarrow> func \<Rightarrow> error + int FuncInfo"
where
  \<comment> \<open>\<^verbatim>\<open>(metas if hasattr(f, 'needs_results') else funcs)[f]\<close>\<close>
  "req_info fs ms f =
     (case map_of (case needs_results f of None \<Rightarrow> fs | Some _ \<Rightarrow> ms) f of
        None \<Rightarrow> Inl PyKeyError
      | Some info \<Rightarrow> Inr info)"

definition find_pos :: "int FuncInfo \<Rightarrow> real option \<Rightarrow> error + int" where
  \<comment> \<open>\<^verbatim>\<open>np.asarray(req_info.pos)[req_info.alphas.index(a)]\<close> for one alpha\<close>
  "find_pos ri a =
     (case alphas ri of
        None \<Rightarrow> Inl PyAttributeError
      | Some als \<Rightarrow>
          (case index_of als a of
             None \<Rightarrow> Inl PyValueError
           | Some idx \<Rightarrow> if idx < length (pos ri) then Inr (pos ri ! idx) else Inl PyIndexError))"

fun find_all_pos :: "int FuncInfo \<Rightarrow> real option list \<Rightarrow> error + int list" where
  "find_all_pos ri [] = Inr []"
| "find_all_pos ri (a # as) =
     (case find_pos ri a of
        Inl e \<Rightarrow> Inl e
      | Inr p \<Rightarrow> (case find_all_pos ri as of Inl e \<Rightarrow> Inl e | Inr ps \<Rightarrow> Inr (p # ps)))"

definition req_deps ::
  "(func \<times> int FuncInfo) list \<Rightarrow> (func \<times> int FuncInfo) list \<Rightarrow> real option list option \<Rightarrow>
     MetaRequirement \<Rightarrow> error + int list"
where
  "req_deps fs ms meta_alphas req =
     (case req_info fs ms (req_func req) of
        Inl e \<Rightarrow> Inl e
      | Inr ri \<Rightarrow>
          (case req_alpha req of
             NoAlpha \<Rightarrow> (case pos ri of [p] \<Rightarrow> Inr [p] | _ \<Rightarrow> Inl PyValueError)
           | Scalar a \<Rightarrow>
               (case find_pos ri (Some a) of Inl e \<Rightarrow> Inl e | Inr p \<Rightarrow> Inr [p])
           | Callable_identity \<Rightarrow>
               (case meta_alphas of
                  None \<Rightarrow> (case find_pos ri None of Inl e \<Rightarrow> Inl e | Inr p \<Rightarrow> Inr [p])
                | Some mals \<Rightarrow> find_all_pos ri mals)))"

fun all_req_deps ::
  "(func \<times> int FuncInfo) list \<Rightarrow> (func \<times> int FuncInfo) list \<Rightarrow> real option list option \<Rightarrow>
     MetaRequirement list \<Rightarrow> error + int list"
where
  "all_req_deps fs ms meta_alphas [] = Inr []"
| "all_req_deps fs ms meta_alphas (req # reqs) =
     (case req_deps fs ms meta_alphas req of
        Inl e \<Rightarrow> Inl e
      | Inr ds \<Rightarrow>
          (case all_req_deps fs ms meta_alphas reqs of
             Inl e \<Rightarrow> Inl e
           | Inr ds' \<Rightarrow> Inr (ds @ ds')))"

definition fill_one ::
  "(func \<times> int FuncInfo) list \<Rightarrow> (func \<times> int FuncInfo) list \<Rightarrow> func \<times> int FuncInfo \<Rightarrow>
     error + func \<times> int MetaFuncInfo"
where
  "fill_one fs ms fi =
     (case fi of (f, info) \<Rightarrow>
        (case all_req_deps fs ms (alphas info)
                (case needs_results f of None \<Rightarrow> [] | Some reqs \<Rightarrow> reqs) of
           Inl e \<Rightarrow> Inl e
         | Inr ds \<Rightarrow> Inr (f, \<lparr>alphas = alphas info, pos = pos info, deps = ds\<rparr>)))"

fun fill_deps ::
  "(func \<times> int FuncInfo) list \<Rightarrow> (func \<times> int FuncInfo) list \<Rightarrow> (func \<times> int FuncInfo) list \<Rightarrow>
     error + (func \<times> int MetaFuncInfo) list"
where
  "fill_deps fs ms [] = Inr []"
| "fill_deps fs ms (fi # rest) =
     (case fill_one fs ms fi of
        Inl e \<Rightarrow> Inl e
      | Inr m \<Rightarrow> (case fill_deps fs ms rest of Inl e \<Rightarrow> Inl e | Inr ms' \<Rightarrow> Inr (m # ms')))"

text \<open>
  \<^verbatim>\<open>OrderedDict((f, metas[f]) for f in meta_order if hasattr(f, 'needs_results'))\<close>
  (lines 953--954).
\<close>

fun order_metas ::
  "(func \<times> int MetaFuncInfo) list \<Rightarrow> func list \<Rightarrow> (func \<times> int MetaFuncInfo) list \<Rightarrow>
     error + (func \<times> int MetaFuncInfo) list"
where
  "order_metas ms [] acc = Inr acc"
| "order_metas ms (f # rest) acc =
     (if needs_results f = None then order_metas ms rest acc
      else
        (case map_of ms f of
           None \<Rightarrow> Inl PyKeyError
         | Some info \<Rightarrow> order_metas ms rest (AList.update f info acc)))"

type_synonym plan =
  "(func \<times> int FuncInfo) list \<times> (func \<times> int MetaFuncInfo) list \<times> int"

definition parse_specs ::
  "(string \<Rightarrow> real option) \<Rightarrow> (func list \<Rightarrow> nat) \<Rightarrow> string list \<Rightarrow> int list \<Rightarrow> error + plan"
where
  "parse_specs py_float pick specs Ks =
     (case add_specs py_float 0 specs \<lparr>funcs = [], metas = [], meta_deps = []\<rparr> of
        Inl e \<Rightarrow> Inl e
      | Inr st \<Rightarrow>
          (case number_infos (- 1) (funcs st) of (c1, fs) \<Rightarrow>
             (case number_infos c1 (metas st) of (c2, ms) \<Rightarrow>
                (case fill_deps fs ms ms of
                   Inl e \<Rightarrow> Inl e
                 | Inr ms' \<Rightarrow>
                     (case topological_sort pick (meta_deps st) of
                        Inl e \<Rightarrow> Inl e
                      | Inr meta_order \<Rightarrow>
                          (case order_metas ms' meta_order [] of
                             Inl e \<Rightarrow> Inl e
                           | Inr metas_ordered \<Rightarrow> Inr (fs, metas_ordered, - c2 - 1)))))))"

subsection \<open>Reading a slot\<close>

text \<open>
  How a position is read off an info, as the source reads it in lines 941--948: for a
  function with alphas, \<^verbatim>\<open>pos[alphas.index(alpha)]\<close>; for a function without, the single
  element of \<^verbatim>\<open>pos\<close>. \<open>slot\<close> reads the dicts during registration (\<open>Some None\<close> is a
  registered occurrence whose position is still \<^verbatim>\<open>None\<close>), \<open>plan_pos\<close> reads the
  returned plan. A function without alpha has the single key \<open>(f, None)\<close>.
\<close>

definition key_ok :: "func \<Rightarrow> real option \<Rightarrow> bool" where
  "key_ok f a = (needs_alpha f \<or> a = None)"

definition info_pos :: "('p, 'z) FuncInfo_scheme \<Rightarrow> real option \<Rightarrow> 'p option" where
  "info_pos info a =
     (case alphas info of
        None \<Rightarrow> (case pos info of [p] \<Rightarrow> Some p | _ \<Rightarrow> None)
      | Some als \<Rightarrow>
          (case index_of als a of
             None \<Rightarrow> None
           | Some idx \<Rightarrow> if idx < length (pos info) then Some (pos info ! idx) else None))"

definition slot :: "parse_state \<Rightarrow> func \<Rightarrow> real option \<Rightarrow> int option option" where
  "slot st f a =
     (if key_ok f a
      then (case map_of (get_dict st f) f of None \<Rightarrow> None | Some info \<Rightarrow> info_pos info a)
      else None)"

definition plan_pos :: "plan \<Rightarrow> func \<Rightarrow> real option \<Rightarrow> int option" where
  "plan_pos pl f a =
     (case pl of (fs, ms, h) \<Rightarrow>
        if key_ok f a
        then (case needs_results f of
                None \<Rightarrow> (case map_of fs f of None \<Rightarrow> None | Some info \<Rightarrow> info_pos info a)
              | Some _ \<Rightarrow> (case map_of ms f of None \<Rightarrow> None | Some info \<Rightarrow> info_pos info a))
        else None)"

definition duplicate_error :: "string \<Rightarrow> func \<Rightarrow> real option \<Rightarrow> error" where
  \<comment> \<open>the error of a second request for the same function and alpha\<close>
  "duplicate_error func_name f a =
     (if needs_alpha f then AlphaPassedMoreThanOnce func_name a
      else PassedMoreThanOnce func_name)"

subsection \<open>What a spec token asks for\<close>

text \<open>
  The words of the specification about a token \<^verbatim>\<open>name\<close> or \<^verbatim>\<open>name:alpha\<close>: its name is
  unknown when it is not in the registry, its alpha part is malformed when \<^verbatim>\<open>float\<close>
  rejects it, and the presence of a parameter mismatches when an alpha is given to a
  function that does not need one or omitted for one that does. A well-formed token
  requests a function, with an alpha or without. These definitions follow the
  specification; \<open>check_spec\<close> above, which follows the source, is compared with them.
  An error names a token when it carries the name part of the token, its alpha part,
  or the whole token, as the messages of lines 900--916 do.
\<close>

definition spec_func :: "string \<Rightarrow> func option" where
  "spec_func spec = map_of func_mapping (fst (split_spec spec))"

definition spec_alpha :: "(string \<Rightarrow> real option) \<Rightarrow> string \<Rightarrow> real option" where
  "spec_alpha to_float spec =
     (case snd (split_spec spec) of None \<Rightarrow> None | Some t \<Rightarrow> to_float t)"

definition unknown_name :: "string \<Rightarrow> bool" where
  "unknown_name spec = (spec_func spec = None)"

definition malformed_alpha :: "(string \<Rightarrow> real option) \<Rightarrow> string \<Rightarrow> bool" where
  "malformed_alpha to_float spec =
     (case snd (split_spec spec) of None \<Rightarrow> False | Some t \<Rightarrow> to_float t = None)"

definition presence_mismatch :: "string \<Rightarrow> bool" where
  "presence_mismatch spec =
     (case spec_func spec of
        None \<Rightarrow> False
      | Some f \<Rightarrow> needs_alpha f \<noteq> (snd (split_spec spec) \<noteq> None))"

definition well_formed :: "(string \<Rightarrow> real option) \<Rightarrow> string \<Rightarrow> bool" where
  "well_formed to_float spec =
     (\<not> unknown_name spec \<and> \<not> malformed_alpha to_float spec \<and> \<not> presence_mismatch spec)"

definition request :: "(string \<Rightarrow> real option) \<Rightarrow> string \<Rightarrow> (func \<times> real option) option" where
  "request to_float spec =
     (case spec_func spec of None \<Rightarrow> None | Some f \<Rightarrow> Some (f, spec_alpha to_float spec))"

fun error_names :: "error \<Rightarrow> string \<Rightarrow> bool" where
  "error_names (NotKnownFunction n) spec = (n = fst (split_spec spec))"
| "error_names (NeedsAlpha n s) spec = (n = fst (split_spec spec) \<and> s = spec)"
| "error_names (DoesntNeedAlpha n s) spec = (n = fst (split_spec spec) \<and> s = spec)"
| "error_names (CouldNotConvertFloat t) spec = (snd (split_spec spec) = Some t)"
| "error_names _ spec = False"

subsection \<open>Invariants of the registration loop\<close>

text \<open>
  What holds of the three dicts between two calls of \<^verbatim>\<open>add_func\<close> from the loop over the
  specs, for the proofs about \<open>parse_specs\<close>. \<open>ok_info\<close>: the lists of an info are as
  long as each other. \<open>state_ok\<close>: \<^verbatim>\<open>funcs\<close> holds the base functions and \<^verbatim>\<open>metas\<close>
  the meta functions, each once. \<open>required_by f a g b\<close>: the meta function \<open>f\<close> with
  alpha \<open>a\<close> has a requirement for \<open>g\<close> with alpha \<open>b\<close>. \<open>own_slot\<close>: the slot of a
  function after \<^verbatim>\<open>add_func\<close> was called for it with position \<open>p\<close>. \<open>md_ok\<close> and
  \<open>graph_ok\<close>: every parent in \<^verbatim>\<open>meta_deps\<close> is a base function with its own entry and no
  parents, and the meta functions with an entry are those of \<^verbatim>\<open>metas\<close>. \<open>slot_spec\<close>:
  the slots after the requests \<open>ks\<close> were registered in this order, the \<open>k\<close>-th at
  position \<open>k\<close>, and what they require but do not request at \<^verbatim>\<open>None\<close>.
\<close>

definition ok_info :: "func \<Rightarrow> int option FuncInfo \<Rightarrow> bool" where
  "ok_info f info =
     (if needs_alpha f
      then (case alphas info of
              None \<Rightarrow> False
            | Some als \<Rightarrow> length (pos info) = length als \<and> als \<noteq> [])
      else alphas info = None \<and> length (pos info) = 1)"

definition state_ok :: "parse_state \<Rightarrow> bool" where
  "state_ok st =
     (distinct (map fst (funcs st)) \<and> distinct (map fst (metas st))
      \<and> (\<forall>f info. (f, info) \<in> set (funcs st) \<longrightarrow> needs_results f = None \<and> ok_info f info)
      \<and> (\<forall>f info. (f, info) \<in> set (metas st) \<longrightarrow> needs_results f \<noteq> None \<and> ok_info f info))"

definition required_by :: "func \<Rightarrow> real option \<Rightarrow> func \<Rightarrow> real option \<Rightarrow> bool" where
  "required_by f a g b =
     (case needs_results f of
        None \<Rightarrow> False
      | Some reqs \<Rightarrow>
          list_ex (\<lambda>req. g = req_func req \<and> b = eval_req_alpha (req_alpha req) a) reqs)"

definition own_slot :: "parse_state \<Rightarrow> func \<Rightarrow> real option \<Rightarrow> int option \<Rightarrow> int option option" where
  "own_slot st f a p =
     (case p of
        Some i \<Rightarrow> Some (Some i)
      | None \<Rightarrow> (case slot st f a of None \<Rightarrow> Some None | Some q \<Rightarrow> Some q))"

definition md_ok :: "func deps \<Rightarrow> bool" where
  "md_ok md =
     (distinct (map fst md)
      \<and> (\<forall>c ps. (c, ps) \<in> set md \<longrightarrow>
            (needs_results c = None \<longrightarrow> ps = [])
          \<and> (\<forall>q \<in> set ps. needs_results q = None \<and> q \<in> fst ` set md)))"

definition graph_ok :: "parse_state \<Rightarrow> bool" where
  "graph_ok st =
     (md_ok (meta_deps st)
      \<and> (\<forall>c. needs_results c \<noteq> None \<longrightarrow>
            (c \<in> fst ` set (meta_deps st) \<longleftrightarrow> c \<in> fst ` set (metas st))))"

definition slot_spec :: "(func \<times> real option) list \<Rightarrow> func \<Rightarrow> real option \<Rightarrow> int option option" where
  "slot_spec ks g b =
     (case index_of ks (g, b) of
        Some k \<Rightarrow> Some (Some (int k))
      | None \<Rightarrow> if list_ex (\<lambda>fa. required_by (fst fa) (snd fa) g b) ks then Some None else None)"

definition registered :: "parse_state \<Rightarrow> (func \<times> real option) list \<Rightarrow> bool" where
  "registered st ks =
     (state_ok st \<and> graph_ok st \<and> (\<forall>g b. slot st g b = slot_spec ks g b))"

text \<open>
  After the numbering loop: \<open>numbered lo hi info info'\<close> says that \<open>info'\<close> keeps the
  alphas and the set positions of \<open>info\<close> and has a number in \<open>(lo, hi]\<close> where \<open>info\<close>
  has \<^verbatim>\<open>None\<close>; \<open>nslot\<close> reads a slot off the numbered dicts. \<open>loop_inv\<close> is the
  invariant of the loop of \<open>topological_sort\<close> on a graph all of whose parents are roots:
  the parents that are left are available, and no node is lost.
\<close>

definition numbered :: "int \<Rightarrow> int \<Rightarrow> int option FuncInfo \<Rightarrow> int FuncInfo \<Rightarrow> bool" where
  "numbered lo hi info info' =
     (alphas info' = alphas info \<and> length (pos info') = length (pos info)
      \<and> (\<forall>i < length (pos info).
            (case pos info ! i of Some p \<Rightarrow> pos info' ! i = p
                                | None \<Rightarrow> lo < pos info' ! i \<and> pos info' ! i \<le> hi)))"

definition nslot ::
  "(func \<times> int FuncInfo) list \<Rightarrow> (func \<times> int FuncInfo) list \<Rightarrow> func \<Rightarrow> real option \<Rightarrow> int option"
where
  "nslot fs ms g b =
     (if key_ok g b
      then (case map_of (case needs_results g of None \<Rightarrow> fs | Some _ \<Rightarrow> ms) g of
              None \<Rightarrow> None
            | Some info \<Rightarrow> info_pos info b)
      else None)"

definition shape_ok :: "func \<Rightarrow> int FuncInfo \<Rightarrow> bool" where
  "shape_ok f info =
     (if needs_alpha f
      then (case alphas info of
              None \<Rightarrow> False
            | Some als \<Rightarrow> length (pos info) = length als \<and> als \<noteq> [])
      else alphas info = None \<and> length (pos info) = 1)"

definition loop_inv :: "'n set \<Rightarrow> 'n list \<Rightarrow> 'n list \<Rightarrow> 'n deps \<Rightarrow> bool" where
  "loop_inv N order available ds =
     ((\<forall>c ps. (c, ps) \<in> set ds \<longrightarrow> ps \<noteq> [] \<and> set ps \<subseteq> set available)
      \<and> set order \<union> set available \<union> fst ` set ds = N)"


section \<open>The estimator object (\<^verbatim>\<open>KNNDivergenceEstimator\<close>, lines 42--246)\<close>

text \<open>
  \<^verbatim>\<open>Features\<close> (a collection of bags of points of one dimension), the FLANN index
  and the numeric kernels are collaborators outside the sources. A bag is a list of
  points of an unspecified type, an index is the bag it was built over, and what the
  collaborators compute is a parameter of the model (the record \<open>env\<close>). The output
  tensor has the axes \<^verbatim>\<open>[function, K, X bag, Y bag, direction]\<close>; it is a list over
  the function axis of lists over the direction axis of blocks of an unspecified type
  (the \<^verbatim>\<open>[K, X bag, Y bag]\<close> part, which the code of this file never inspects).
\<close>

record 'pt Features =
  bags :: "'pt list list"
  fdim :: nat

definition n_pts :: "'pt Features \<Rightarrow> nat list" where
  "n_pts X = map length (bags X)"

datatype 'pt FLANNIndex = FLANNIndex "'pt list"

type_synonym rhos = "real list list option list"

datatype log_entry =
    Info string
  | Warning_lower_max_K int int
      \<comment> \<open>"Fit with a lower max\_K ({}) than we actually need ({}); recomputing rhos. ..."\<close>

datatype bound_func =
    Partial func "real option list option" "int list" nat
      \<comment> \<open>\<^verbatim>\<open>partial(func, [alphas,] Ks, dim)\<close>\<close>
  | Chosen func "real option list option" "int list" nat "nat list" "nat list option" "int option"
      \<comment> \<open>\<^verbatim>\<open>func.chooser_fn([alphas,] Ks, dim, X_ns, Y_ns)\<close>, with \<^verbatim>\<open>k_needed\<close> when the
          chooser returns it\<close>

fun unbound :: "bound_func \<Rightarrow> func" where
  \<comment> \<open>the function whose attributes \<^verbatim>\<open>replace_func\<close> copies onto the replacement\<close>
  "unbound (Partial f _ _ _) = f"
| "unbound (Chosen f _ _ _ _ _ _) = f"

fun k_needed :: "bound_func \<Rightarrow> int option" where
  "k_needed (Partial _ _ _ _) = None"
| "k_needed (Chosen _ _ _ _ _ _ k) = k"

fun has_chooser_fn :: "func \<Rightarrow> bool" where
  "has_chooser_fn Linear = True"
| "has_chooser_fn Alpha_div = True"
| "has_chooser_fn Jensen_shannon_core = True"
| "has_chooser_fn _ = False"

fun returns_ks :: "func \<Rightarrow> bool" where
  "returns_ks Jensen_shannon_core = True"
| "returns_ks _ = False"

record base_plan =
  funcs_base' :: "(func \<times> int FuncInfo) list"
  metas_base' :: "(func \<times> int MetaFuncInfo) list"
  n_meta_only' :: int
  save_all_Ks' :: bool

record 'pt cross_divs_args =
  arg_X :: "'pt Features"
  arg_X_indices :: "'pt FLANNIndex list"
  arg_X_rhos :: rhos
  arg_Y :: "'pt Features"
  arg_Y_indices :: "'pt FLANNIndex list"
  arg_Y_rhos :: "rhos option"
  arg_funcs :: "(bound_func \<times> int FuncInfo) list"
  arg_Ks :: "int list"
  arg_max_K :: int
  arg_save_all_Ks :: bool
  arg_n_output :: int
  arg_do_sym :: bool
  arg_min_dist :: real
  arg_clamp :: bool

record ('pt, 'c) env =
  py_float :: "string \<Rightarrow> real option"
    \<comment> \<open>the builtin \<^verbatim>\<open>float\<close>\<close>
  set_pop_choice :: "func list \<Rightarrow> nat"
    \<comment> \<open>which element \<^verbatim>\<open>set.pop\<close> removes\<close>
  js_core_max_i :: "int list \<Rightarrow> nat \<Rightarrow> nat list \<Rightarrow> nat list option \<Rightarrow> error + int"
    \<comment> \<open>the second component of \<^verbatim>\<open>_get_jensen_shannon_core(Ks, dim, X_ns, Y_ns)\<close>, or its
        \<^verbatim>\<open>ValueError\<close>; the source computes it in floating point\<close>
  nn_index :: "'pt FLANNIndex \<Rightarrow> 'pt list \<Rightarrow> int \<Rightarrow> real list list"
    \<comment> \<open>\<^verbatim>\<open>idx.nn_index(pts, k)[1]\<close>: one row of \<^verbatim>\<open>k\<close> squared distances per query point\<close>
  np_sqrt :: "real \<Rightarrow> real"
    \<comment> \<open>numpy's \<^verbatim>\<open>sqrt\<close> on the floating-point distances\<close>
  estimate_cross_divs :: "'pt cross_divs_args \<Rightarrow> error + 'c list list"
    \<comment> \<open>\<^verbatim>\<open>_estimate_cross_divs\<close> of \<^verbatim>\<open>._knn\<close>\<close>
  meta_call ::
    "bound_func \<Rightarrow> rhos option \<Rightarrow> rhos option option \<Rightarrow> 'c list list list \<Rightarrow> bool \<Rightarrow>
       error + 'c list list"
    \<comment> \<open>\<^verbatim>\<open>meta(*args, clamp=self.clamp)\<close>: \<^verbatim>\<open>X_rhos\<close> and \<^verbatim>\<open>Y_rhos\<close> when the meta needs
        them (\<^verbatim>\<open>Y_rhos\<close> may be \<^verbatim>\<open>None\<close>), then the required results\<close>

record 'pt estimator =
  div_funcs :: "string list"
  Ks :: "int list"
  do_sym :: bool
  clamp :: bool
  min_dist :: real
  flann_args_ok :: bool
    \<comment> \<open>whether \<^verbatim>\<open>FLANNParameters(**self._flann_args())\<close> accepts the arguments\<close>
  base' :: "base_plan option"
    \<comment> \<open>\<^verbatim>\<open>funcs_base_\<close>, \<^verbatim>\<open>metas_base_\<close>, \<^verbatim>\<open>n_meta_only_\<close> and \<^verbatim>\<open>save_all_Ks_\<close>, which
        \<^verbatim>\<open>_setup_args\<close> sets together\<close>
  features' :: "'pt Features option"
  funcs' :: "(bound_func \<times> int FuncInfo) list option"
  metas' :: "(bound_func \<times> int MetaFuncInfo) list option"
  max_K' :: "int option"
  indices' :: "'pt FLANNIndex list option"
  rhos' :: "rhos option"
  logged :: "log_entry list"
    \<comment> \<open>what was passed to \<^verbatim>\<open>logger.info\<close> and \<^verbatim>\<open>logger.warning\<close>, oldest first\<close>

text \<open>
  An attribute that the source sets after construction (its name ends in an underscore
  there, here in a prime) is \<open>None\<close> until it is set. A method returns its value and the updated object, or the exception together with
  the object as it is when the exception is raised.
\<close>

type_synonym ('s, 'x) result = "(error \<times> 's) + ('x \<times> 's)"

definition py_min :: "int list \<Rightarrow> error + int" where
  \<comment> \<open>numpy's \<^verbatim>\<open>min\<close>, which raises on an empty array\<close>
  "py_min xs = (case xs of [] \<Rightarrow> Inl PyValueError | x # rest \<Rightarrow> Inr (fold min rest x))"

definition py_max :: "int list \<Rightarrow> error + int" where
  "py_max xs = (case xs of [] \<Rightarrow> Inl PyValueError | x # rest \<Rightarrow> Inr (fold max rest x))"

definition py_nth :: "'x list \<Rightarrow> int \<Rightarrow> error + 'x" where
  \<comment> \<open>indexing, where a negative index counts from the end\<close>
  "py_nth xs i =
     (let n = int (length xs) in
      if 0 \<le> i \<and> i < n then Inr (xs ! nat i)
      else if - n \<le> i \<and> i < 0 then Inr (xs ! nat (n + i))
      else Inl PyIndexError)"

fun map_err :: "('x \<Rightarrow> error + 'y) \<Rightarrow> 'x list \<Rightarrow> error + 'y list" where
  "map_err f [] = Inr []"
| "map_err f (x # xs) =
     (case f x of
        Inl e \<Rightarrow> Inl e
      | Inr y \<Rightarrow> (case map_err f xs of Inl e \<Rightarrow> Inl e | Inr ys \<Rightarrow> Inr (y # ys)))"

subsection \<open>\<^verbatim>\<open>__init__\<close> and \<^verbatim>\<open>_setup_args\<close> (lines 51--86)\<close>

definition setup_args :: "('pt, 'c) env \<Rightarrow> 'pt estimator \<Rightarrow> ('pt estimator, unit) result" where
  "setup_args E s =
     (case py_min (Ks s) of
        Inl e \<Rightarrow> Inl (e, s)
      | Inr m \<Rightarrow>
          if m < 1 then Inl (KsNotPositive m, s)
          else
            (case (case base' s of
                     Some _ \<Rightarrow> Inr s
                   | None \<Rightarrow>
                       (case parse_specs (py_float E) (set_pop_choice E) (div_funcs s) (Ks s) of
                          Inl e \<Rightarrow> Inl (e, s)
                        | Inr (fs, ms, n) \<Rightarrow>
                            Inr (s\<lparr>base' := Some
                                  \<lparr>funcs_base' = fs, metas_base' = ms, n_meta_only' = n,
                                     save_all_Ks' = list_ex needs_all_ks (map fst fs)\<rparr>\<rparr>)))
             of
               Inl x \<Rightarrow> Inl x
             | Inr s1 \<Rightarrow>
                 if flann_args_ok s1 then Inr ((), s1) else Inl (InvalidFlannArgs, s1)))"

definition init ::
  "('pt, 'c) env \<Rightarrow> string list \<Rightarrow> int list \<Rightarrow> bool \<Rightarrow> bool \<Rightarrow> real \<Rightarrow> bool \<Rightarrow>
     error + 'pt estimator"
where
  \<comment> \<open>\<^verbatim>\<open>__init__\<close>; an exception leaves no object behind\<close>
  "init E div_funcs0 Ks0 do_sym0 clamp0 min_dist0 flann_ok =
     (case setup_args E
             \<lparr>div_funcs = div_funcs0, Ks = Ks0, do_sym = do_sym0, clamp = clamp0,
                min_dist = min_dist0, flann_args_ok = flann_ok, base' = None, features' = None,
                funcs' = None, metas' = None, max_K' = None, indices' = None, rhos' = None,
                logged = []\<rparr> of
        Inl (e, _) \<Rightarrow> Inl e
      | Inr (_, s) \<Rightarrow> Inr s)"

subsection \<open>\<^verbatim>\<open>_set_up_funcs\<close> (lines 959--989) and \<^verbatim>\<open>_choose_funcs\<close> (lines 108--117)\<close>

definition replace_func ::
  "('pt, 'c) env \<Rightarrow> int list \<Rightarrow> nat \<Rightarrow> nat list \<Rightarrow> nat list option \<Rightarrow> func \<Rightarrow>
     real option list option \<Rightarrow> error + bound_func"
where
  "replace_func E ks d X_ns Y_ns f info_alphas =
     (let bound_alphas = (if needs_alpha f then info_alphas else None) in
      if has_chooser_fn f then
        if needs_all_ks f \<and> returns_ks f then
          (case js_core_max_i E ks d X_ns Y_ns of
             Inl e \<Rightarrow> Inl e
           | Inr k \<Rightarrow> Inr (Chosen f bound_alphas ks d X_ns Y_ns (Some k)))
        else Inr (Chosen f bound_alphas ks d X_ns Y_ns None)
      else Inr (Partial f bound_alphas ks d))"

definition set_up_funcs ::
  "('pt, 'c) env \<Rightarrow> (func \<times> int FuncInfo) list \<Rightarrow> (func \<times> int MetaFuncInfo) list \<Rightarrow> int list \<Rightarrow>
     nat \<Rightarrow> nat list \<Rightarrow> nat list option \<Rightarrow>
     error + (bound_func \<times> int FuncInfo) list \<times> (bound_func \<times> int MetaFuncInfo) list"
where
  "set_up_funcs E fs ms ks d X_ns Y_ns =
     (case map_err (\<lambda>(f, info).
               case replace_func E ks d X_ns Y_ns f (alphas info) of
                 Inl e \<Rightarrow> Inl e | Inr new \<Rightarrow> Inr (new, info)) fs of
        Inl e \<Rightarrow> Inl e
      | Inr rep_funcs \<Rightarrow>
          (case map_err (\<lambda>(f, info).
                   case replace_func E ks d X_ns Y_ns f (alphas info) of
                     Inl e \<Rightarrow> Inl e | Inr new \<Rightarrow> Inr (new, info)) ms of
             Inl e \<Rightarrow> Inl e
           | Inr rep_metas_ordered \<Rightarrow> Inr (rep_funcs, rep_metas_ordered)))"

definition fold_k_needed :: "int \<Rightarrow> (bound_func \<times> int FuncInfo) list \<Rightarrow> int" where
  \<comment> \<open>\<^verbatim>\<open>for func in self.funcs_: if hasattr(func, 'k_needed'): max_K = max(max_K, func.k_needed)\<close>\<close>
  "fold_k_needed max_K fs =
     fold (\<lambda>(bf, info) m. case k_needed bf of None \<Rightarrow> m | Some k \<Rightarrow> max m k) fs max_K"

definition choose_funcs ::
  "('pt, 'c) env \<Rightarrow> 'pt Features \<Rightarrow> 'pt Features option \<Rightarrow> 'pt estimator \<Rightarrow>
     ('pt estimator, unit) result"
where
  "choose_funcs E X Y s =
     (case base' s of
        None \<Rightarrow> Inl (PyAttributeError, s)
      | Some bp \<Rightarrow>
          (case set_up_funcs E (funcs_base' bp) (metas_base' bp) (Ks s) (fdim X) (n_pts X)
                  (map_option n_pts Y) of
             Inl e \<Rightarrow> Inl (e, s)
           | Inr (fs, ms) \<Rightarrow>
               (let s1 = s\<lparr>funcs' := Some fs, metas' := Some ms\<rparr> in
                case py_max (Ks s1) of
                  Inl e \<Rightarrow> Inl (e, s1)
                | Inr kmax \<Rightarrow>
                    Inr ((), s1\<lparr>max_K' := Some
                      (fold_k_needed
                         (max kmax (case max_K' s1 of None \<Rightarrow> 0 | Some k \<Rightarrow> k)) fs)\<rparr>))))"

subsection \<open>\<^verbatim>\<open>_check_Ks\<close>, \<^verbatim>\<open>_build_indices\<close> and \<^verbatim>\<open>_get_rhos\<close> (lines 127--159)\<close>

definition check_Ks ::
  "'pt Features \<Rightarrow> 'pt Features option \<Rightarrow> 'pt estimator \<Rightarrow> ('pt estimator, unit) result"
where
  "check_Ks X Y s =
     (case py_min (map int (n_pts X)) of
        Inl e \<Rightarrow> Inl (e, s)
      | Inr mx \<Rightarrow>
          (case (case Y of
                   None \<Rightarrow> Inr mx
                 | Some Y' \<Rightarrow>
                     (case py_min (map int (n_pts Y')) of
                        Inl e \<Rightarrow> Inl e
                      | Inr my \<Rightarrow> Inr (min mx my))) of
             Inl e \<Rightarrow> Inl (e, s)
           | Inr min_pt \<Rightarrow>
               (case max_K' s of
                  None \<Rightarrow> Inl (PyAttributeError, s)
                | Some max_K \<Rightarrow>
                    if max_K \<ge> min_pt then Inl (InsufficientPoints max_K (nat min_pt), s)
                    else Inr ((), s))))"

definition build_indices ::
  "'pt Features \<Rightarrow> 'pt estimator \<Rightarrow> ('pt estimator, 'pt FLANNIndex list) result"
where
  "build_indices X s =
     Inr (map FLANNIndex (bags X), s\<lparr>logged := logged s @ [Info ''Building indices...'']\<rparr>)"

definition select_columns :: "int list \<Rightarrow> real list list \<Rightarrow> error + real list list" where
  \<comment> \<open>\<^verbatim>\<open>r[:, which]\<close> for an integer array \<^verbatim>\<open>which\<close>\<close>
  "select_columns which r = map_err (\<lambda>row. map_err (py_nth row) which) r"

definition bag_rhos ::
  "('pt, 'c) env \<Rightarrow> 'pt estimator \<Rightarrow> bool \<Rightarrow> int \<Rightarrow> 'pt list \<times> 'pt FLANNIndex \<Rightarrow>
     error + real list list"
where
  \<comment> \<open>the body of the loop of \<^verbatim>\<open>_get_rhos\<close>\<close>
  "bag_rhos E s save_all max_K bi =
     (case bi of (bag, idx) \<Rightarrow>
        (case (if save_all then Inr (map (drop 1) (nn_index E idx bag (max_K + 1)))
               else select_columns (Ks s) (nn_index E idx bag (max_K + 1))) of
           Inl e \<Rightarrow> Inl e
         | Inr r \<Rightarrow> Inr (map (map (\<lambda>d. max (min_dist s) (np_sqrt E d))) r)))"

definition get_rhos ::
  "('pt, 'c) env \<Rightarrow> 'pt Features \<Rightarrow> 'pt FLANNIndex list \<Rightarrow> 'pt estimator \<Rightarrow>
     ('pt estimator, rhos) result"
where
  "get_rhos E X indices s =
     (let s1 = s\<lparr>logged := logged s @ [Info ''Getting within-bag distances...'']\<rparr> in
      case check_Ks X None s1 of
        Inl x \<Rightarrow> Inl x
      | Inr (_, s2) \<Rightarrow>
          (case base' s2 of
             None \<Rightarrow> Inl (PyAttributeError, s2)
           | Some bp \<Rightarrow>
               (case max_K' s2 of
                  None \<Rightarrow> Inl (PyAttributeError, s2)
                | Some max_K \<Rightarrow>
                    (case map_err (bag_rhos E s2 (save_all_Ks' bp) max_K) (zip (bags X) indices) of
                       Inl e \<Rightarrow> Inl (e, s2)
                     | Inr rs \<Rightarrow>
                         Inr (map Some rs @ replicate (length (bags X) - length rs) None, s2)))))"

definition column_K :: "'pt estimator \<Rightarrow> base_plan \<Rightarrow> nat \<Rightarrow> int" where
  \<comment> \<open>the neighbour rank K that column \<open>c\<close> of a rho array of \<^verbatim>\<open>_get_rhos\<close> holds: all
      ranks from 1 when \<^verbatim>\<open>save_all_Ks_\<close>, the requested \<^verbatim>\<open>Ks\<close> otherwise\<close>
  "column_K s bp c = (if save_all_Ks' bp then int c + 1 else Ks s ! c)"

subsection \<open>\<^verbatim>\<open>fit\<close> (lines 186--203)\<close>

definition fit ::
  "('pt, 'c) env \<Rightarrow> 'pt Features \<Rightarrow> bool \<Rightarrow> 'pt estimator \<Rightarrow> ('pt estimator, unit) result"
where
  "fit E X skip_rhos s =
     (case setup_args E s of
        Inl x \<Rightarrow> Inl x
      | Inr (_, s1) \<Rightarrow>
          (case choose_funcs E X None (s1\<lparr>features' := Some X\<rparr>) of
             Inl x \<Rightarrow> Inl x
           | Inr (_, s2) \<Rightarrow>
               (case check_Ks X None s2 of
                  Inl x \<Rightarrow> Inl x
                | Inr (_, s3) \<Rightarrow>
                    (case build_indices X s3 of
                       Inl x \<Rightarrow> Inl x
                     | Inr (idx, s4) \<Rightarrow>
                         if \<not> skip_rhos then
                           (case get_rhos E X idx (s4\<lparr>indices' := Some idx\<rparr>) of
                              Inl x \<Rightarrow> Inl x
                            | Inr (r, s5) \<Rightarrow> Inr ((), s5\<lparr>rhos' := Some r\<rparr>))
                         else Inr ((), s4\<lparr>indices' := Some idx\<rparr>)))))"

subsection \<open>\<^verbatim>\<open>_finalize\<close> (lines 161--184)\<close>

datatype 'c out_tensor =
    Directed "'c list list"
      \<comment> \<open>five axes: the trailing direction axis is present\<close>
  | Forward_only "'c list"
      \<comment> \<open>four axes, after \<^verbatim>\<open>outputs[:, :, :, :, 0]\<close>\<close>

definition py_update :: "'x list \<Rightarrow> int \<Rightarrow> 'x \<Rightarrow> error + 'x list" where
  "py_update xs i v =
     (let n = int (length xs) in
      if 0 \<le> i \<and> i < n then Inr (xs[nat i := v])
      else if - n \<le> i \<and> i < 0 then Inr (xs[nat (n + i) := v])
      else Inl PyIndexError)"

definition broadcast :: "nat \<Rightarrow> 'x list \<Rightarrow> error + 'x list" where
  \<comment> \<open>numpy broadcasts an axis of length 1 and rejects any other length but the target's\<close>
  "broadcast n xs =
     (if length xs = n then Inr xs
      else (case xs of [x] \<Rightarrow> Inr (replicate n x) | _ \<Rightarrow> Inl PyValueError))"

fun assign_each :: "'c list list \<Rightarrow> (int \<times> 'c list) list \<Rightarrow> error + 'c list list" where
  "assign_each outputs [] = Inr outputs"
| "assign_each outputs ((i, row) # rest) =
     (case py_nth outputs i of
        Inl e \<Rightarrow> Inl e
      | Inr old \<Rightarrow>
          (case broadcast (length old) row of
             Inl e \<Rightarrow> Inl e
           | Inr row' \<Rightarrow>
               (case py_update outputs i row' of
                  Inl e \<Rightarrow> Inl e
                | Inr outputs' \<Rightarrow> assign_each outputs' rest)))"

definition assign_rows :: "'c list list \<Rightarrow> int list \<Rightarrow> 'c list list \<Rightarrow> error + 'c list list" where
  \<comment> \<open>\<^verbatim>\<open>outputs[info.pos, :, :, :] = r\<close>\<close>
  "assign_rows outputs ps r =
     (case broadcast (length ps) r of
        Inl e \<Rightarrow> Inl e
      | Inr r' \<Rightarrow> assign_each outputs (zip ps r'))"

definition requested_columns :: "int list \<Rightarrow> rhos \<Rightarrow> error + rhos" where
  \<comment> \<open>\<^verbatim>\<open>[rho[:, self.Ks - 1] for rho in rhos]\<close>\<close>
  "requested_columns ks rs =
     map_err (\<lambda>rho. case rho of
                None \<Rightarrow> Inl PyTypeError
              | Some r \<Rightarrow>
                  (case select_columns (map (\<lambda>k. k - 1) ks) r of
                     Inl e \<Rightarrow> Inl e
                   | Inr r' \<Rightarrow> Inr (Some r'))) rs"

definition finalize_rhos ::
  "'pt estimator \<Rightarrow> bool \<Rightarrow> rhos \<Rightarrow> rhos option \<Rightarrow> error + rhos \<times> rhos option"
where
  \<comment> \<open>lines 162--164\<close>
  "finalize_rhos s save_all X_rhos Y_rhos =
     (if save_all then
        (case requested_columns (Ks s) X_rhos of
           Inl e \<Rightarrow> Inl e
         | Inr X_rhos1 \<Rightarrow>
             (case Y_rhos of
                None \<Rightarrow> Inl PyTypeError
              | Some ys \<Rightarrow>
                  (case requested_columns (Ks s) ys of
                     Inl e \<Rightarrow> Inl e
                   | Inr Y_rhos1 \<Rightarrow> Inr (X_rhos1, Some Y_rhos1))))
      else Inr (X_rhos, Y_rhos))"

definition finalize_meta ::
  "('pt, 'c) env \<Rightarrow> bool \<Rightarrow> rhos \<Rightarrow> rhos option \<Rightarrow> bound_func \<times> int MetaFuncInfo \<Rightarrow>
     'c list list \<Rightarrow> error + 'c list list"
where
  \<comment> \<open>the body of the loop over \<^verbatim>\<open>self.metas_\<close>, lines 167--177\<close>
  "finalize_meta E clamp0 X_rhos Y_rhos mi outputs =
     (case mi of (meta, info) \<Rightarrow>
        (case map_err (\<lambda>i. case py_nth outputs i of Inl e \<Rightarrow> Inl e | Inr row \<Rightarrow> Inr [row])
                (deps info) of
           Inl e \<Rightarrow> Inl e
         | Inr required \<Rightarrow>
             (case meta_call E meta
                     (if fst (needs_rhos (unbound meta)) then Some X_rhos else None)
                     (if snd (needs_rhos (unbound meta)) then Some Y_rhos else None)
                     required clamp0 of
                Inl e \<Rightarrow> Inl e
              | Inr r \<Rightarrow> assign_rows outputs (pos info) r)))"

definition py_slice_to :: "'x list \<Rightarrow> int \<Rightarrow> 'x list" where
  \<comment> \<open>\<^verbatim>\<open>xs[:stop]\<close>\<close>
  "py_slice_to xs stop =
     (if stop < 0 then take (nat (int (length xs) + stop)) xs else take (nat stop) xs)"

definition finalize ::
  "('pt, 'c) env \<Rightarrow> 'c list list \<Rightarrow> rhos \<Rightarrow> rhos option \<Rightarrow> 'pt estimator \<Rightarrow> error + 'c out_tensor"
where
  "finalize E outputs X_rhos Y_rhos s =
     (case base' s of
        None \<Rightarrow> Inl PyAttributeError
      | Some bp \<Rightarrow>
          (case finalize_rhos s (save_all_Ks' bp) X_rhos Y_rhos of
             Inl e \<Rightarrow> Inl e
           | Inr (X_rhos1, Y_rhos1) \<Rightarrow>
               (case metas' s of
                  None \<Rightarrow> Inl PyAttributeError
                | Some ms \<Rightarrow>
                    (case fold_err (finalize_meta E (clamp s) X_rhos1 Y_rhos1) ms outputs of
                       Inl e \<Rightarrow> Inl e
                     | Inr outputs1 \<Rightarrow>
                         (case (if \<not> do_sym s
                                then (case map_err (\<lambda>row. py_nth row 0) outputs1 of
                                        Inl e \<Rightarrow> Inl e
                                      | Inr fwd \<Rightarrow> Inr (Forward_only fwd))
                                else Inr (Directed outputs1)) of
                            Inl e \<Rightarrow> Inl e
                          | Inr outputs2 \<Rightarrow>
                              if n_meta_only' bp \<noteq> 0 then
                                Inr (case outputs2 of
                                       Directed rows \<Rightarrow>
                                         Directed (py_slice_to rows (- n_meta_only' bp))
                                     | Forward_only rows \<Rightarrow>
                                         Forward_only (py_slice_to rows (- n_meta_only' bp)))
                              else Inr outputs2)))))"

subsection \<open>\<^verbatim>\<open>transform\<close> (lines 205--246)\<close>

definition transpose_positions :: "(bound_func \<times> int MetaFuncInfo) list \<Rightarrow> int list" where
  \<comment> \<open>the set comprehension of lines 226--229, as the list of its elements\<close>
  "transpose_positions ms =
     concat (map (\<lambda>(f, info).
        map fst (filter (\<lambda>(req_pos, req). needs_transpose req)
          (zip (deps info) (case needs_results (unbound f) of None \<Rightarrow> [] | Some reqs \<Rightarrow> reqs))))
        ms)"

definition transform_do_sym :: "'pt estimator \<Rightarrow> (bound_func \<times> int MetaFuncInfo) list \<Rightarrow> bool" where
  \<comment> \<open>the truth value of the local \<^verbatim>\<open>do_sym\<close>: \<^verbatim>\<open>self.do_sym or {...}\<close>\<close>
  "transform_do_sym s ms = (do_sym s \<or> transpose_positions ms \<noteq> [])"

definition refresh_rhos ::
  "('pt, 'c) env \<Rightarrow> 'pt Features \<Rightarrow> int \<Rightarrow> 'pt estimator \<Rightarrow> ('pt estimator, rhos) result"
where
  \<comment> \<open>lines 213--224 and 232: the value is \<^verbatim>\<open>X_rhos = self.rhos_\<close>\<close>
  "refresh_rhos E X old_max_K s =
     (case max_K' s of
        None \<Rightarrow> Inl (PyAttributeError, s)
      | Some max_K \<Rightarrow>
          (let s1 = (if rhos' s \<noteq> None \<and> max_K > old_max_K
                     then s\<lparr>logged := logged s @ [Warning_lower_max_K old_max_K max_K],
                            rhos' := None\<rparr>
                     else s) in
           case rhos' s1 of
             Some r \<Rightarrow> Inr (r, s1)
           | None \<Rightarrow>
               (case indices' s1 of
                  None \<Rightarrow> Inl (PyAttributeError, s1)
                | Some idx \<Rightarrow>
                    (case get_rhos E X idx s1 of
                       Inl x \<Rightarrow> Inl x
                     | Inr (r, s2) \<Rightarrow> Inr (r, s2\<lparr>rhos' := Some r\<rparr>)))))"

definition get_Y_rhos ::
  "('pt, 'c) env \<Rightarrow> 'pt Features \<Rightarrow> 'pt FLANNIndex list \<Rightarrow> bool \<Rightarrow> 'pt estimator \<Rightarrow>
     ('pt estimator, rhos option) result"
where
  \<comment> \<open>line 234: \<^verbatim>\<open>Y_rhos = self._get_rhos(Y, Y_indices) if do_sym else None\<close>\<close>
  "get_Y_rhos E Y Y_indices do_sym_local s =
     (if do_sym_local
      then (case get_rhos E Y Y_indices s of
              Inl x \<Rightarrow> Inl x
            | Inr (r, s1) \<Rightarrow> Inr (Some r, s1))
      else Inr (None, s))"

definition cross_divergences ::
  "('pt, 'c) env \<Rightarrow> 'pt Features \<Rightarrow> 'pt Features \<Rightarrow> rhos \<Rightarrow> 'pt estimator \<Rightarrow>
     ('pt estimator, 'c out_tensor) result"
where
  \<comment> \<open>lines 226--246 of \<^verbatim>\<open>transform\<close>, with \<^verbatim>\<open>X_rhos = self.rhos_\<close> of line 232\<close>
  "cross_divergences E X Y X_rhos s3 =
     (case metas' s3 of
        None \<Rightarrow> Inl (PyAttributeError, s3)
      | Some ms \<Rightarrow>
     (case indices' s3 of
        None \<Rightarrow> Inl (PyAttributeError, s3)
      | Some X_indices \<Rightarrow>
     (case build_indices Y s3 of
        Inl x \<Rightarrow> Inl x
      | Inr (Y_indices, s4) \<Rightarrow>
     (case get_Y_rhos E Y Y_indices (transform_do_sym s3 ms) s4 of
        Inl x \<Rightarrow> Inl x
      | Inr (Y_rhos, s5) \<Rightarrow>
     (let s6 = s5\<lparr>logged := logged s5 @ [Info ''Getting divergences...'']\<rparr> in
      case funcs' s6 of
        None \<Rightarrow> Inl (PyAttributeError, s6)
      | Some fs \<Rightarrow>
     (case max_K' s6 of
        None \<Rightarrow> Inl (PyAttributeError, s6)
      | Some max_K \<Rightarrow>
     (case base' s6 of
        None \<Rightarrow> Inl (PyAttributeError, s6)
      | Some bp \<Rightarrow>
     (case estimate_cross_divs E
             \<lparr>arg_X = X, arg_X_indices = X_indices, arg_X_rhos = X_rhos, arg_Y = Y,
                arg_Y_indices = Y_indices, arg_Y_rhos = Y_rhos, arg_funcs = fs,
                arg_Ks = Ks s6, arg_max_K = max_K, arg_save_all_Ks = save_all_Ks' bp,
                arg_n_output = int (length (div_funcs s6)) + n_meta_only' bp,
                arg_do_sym = transform_do_sym s3 ms, arg_min_dist = min_dist s6,
                arg_clamp = clamp s6\<rparr> of
        Inl e \<Rightarrow> Inl (e, s6)
      | Inr outputs \<Rightarrow>
     (let s7 = s6\<lparr>logged := logged s6 @ [Info ''Getting meta functions...'']\<rparr> in
      case finalize E outputs X_rhos Y_rhos s7 of
        Inl e \<Rightarrow> Inl (e, s7)
      | Inr out \<Rightarrow>
          Inr (out, s7\<lparr>logged := logged s7 @ [Info ''Done with divergences.'']\<rparr>))))))))))"

definition transform ::
  "('pt, 'c) env \<Rightarrow> 'pt Features \<Rightarrow> 'pt estimator \<Rightarrow> ('pt estimator, 'c out_tensor) result"
where
  "transform E Y s =
     (case features' s of
        None \<Rightarrow> Inl (PyAttributeError, s)
      | Some X \<Rightarrow>
     (case max_K' s of
        None \<Rightarrow> Inl (PyAttributeError, s)
      | Some old_max_K \<Rightarrow>
     (case choose_funcs E X (Some Y) s of
        Inl x \<Rightarrow> Inl x
      | Inr (_, s1) \<Rightarrow>
     (case check_Ks X (Some Y) s1 of
        Inl x \<Rightarrow> Inl x
      | Inr (_, s2) \<Rightarrow>
     (case refresh_rhos E X old_max_K s2 of
        Inl x \<Rightarrow> Inl x
      | Inr (X_rhos, s3) \<Rightarrow> cross_divergences E X Y X_rhos s3)))))"

text \<open>
  Lines 233--246 as they run when the local \<^verbatim>\<open>do_sym\<close> is truthy: the radii of Y
  are computed by \<^verbatim>\<open>_get_rhos(Y, Y_indices)\<close>, and the kernel and \<^verbatim>\<open>_finalize\<close> are
  handed them. This is not a function of the source; \<open>cross_divergences\<close> above is
  compared with it.
\<close>

definition symmetric_pass ::
  "('pt, 'c) env \<Rightarrow> 'pt Features \<Rightarrow> 'pt Features \<Rightarrow> 'pt FLANNIndex list \<Rightarrow> rhos \<Rightarrow>
     'pt estimator \<Rightarrow> ('pt estimator, 'c out_tensor) result"
where
  "symmetric_pass E X Y X_indices X_rhos s3 =
     (case build_indices Y s3 of
        Inl x \<Rightarrow> Inl x
      | Inr (Y_indices, s4) \<Rightarrow>
     (case get_rhos E Y Y_indices s4 of
        Inl x \<Rightarrow> Inl x
      | Inr (Y_rhos, s5) \<Rightarrow>
     (let s6 = s5\<lparr>logged := logged s5 @ [Info ''Getting divergences...'']\<rparr> in
      case funcs' s6 of
        None \<Rightarrow> Inl (PyAttributeError, s6)
      | Some fs \<Rightarrow>
     (case max_K' s6 of
        None \<Rightarrow> Inl (PyAttributeError, s6)
      | Some max_K \<Rightarrow>
     (case base' s6 of
        None \<Rightarrow> Inl (PyAttributeError, s6)
      | Some bp \<Rightarrow>
     (case estimate_cross_divs E
             \<lparr>arg_X = X, arg_X_indices = X_indices, arg_X_rhos = X_rhos, arg_Y = Y,
                arg_Y_indices = Y_indices, arg_Y_rhos = Some Y_rhos, arg_funcs = fs,
                arg_Ks = Ks s6, arg_max_K = max_K, arg_save_all_Ks = save_all_Ks' bp,
                arg_n_output = int (length (div_funcs s6)) + n_meta_only' bp,
                arg_do_sym = True, arg_min_dist = min_dist s6,
                arg_clamp = clamp s6\<rparr> of
        Inl e \<Rightarrow> Inl (e, s6)
      | Inr outputs \<Rightarrow>
     (let s7 = s6\<lparr>logged := logged s6 @ [Info ''Getting meta functions...'']\<rparr> in
      case finalize E outputs X_rhos (Some Y_rhos) s7 of
        Inl e \<Rightarrow> Inl (e, s7)
      | Inr out \<Rightarrow>
          Inr (out, s7\<lparr>logged := logged s7 @ [Info ''Done with divergences.'']\<rparr>))))))))"

subsection \<open>The chooser of \<^verbatim>\<open>jensen_shannon_core\<close> (lines 366--417)\<close>

text \<open>
  The bound on the neighbour count that \<^verbatim>\<open>_get_jensen_shannon_core\<close> returns, in exact
  rational arithmetic. The source computes the weights and the products of lines
  392--411 in double precision, so the two differ where rounding moves a product across
  an integer: for \<^verbatim>\<open>Ks = (21,)\<close> and bags of 3 and 5 points the greatest weight is 9/7
  and the exact bound is \<open>\<lceil>9/7 * 21\<rceil> = 27\<close>, where the doubles give
  \<^verbatim>\<open>ceil(27.000000000000004) = 28\<close>. The function is therefore not taken as the source's
  in any general statement: the estimator reads the bound from the parameter
  \<open>js_core_max_i\<close> of the environment, the general statements hold for every instance
  of that parameter, and this function instantiates it only in the concrete runs below,
  on inputs where the doubles give the same bound (\<^verbatim>\<open>Ks = (3,)\<close>: 3 for bags of 4 and 4
  or of 6 and 6 points, 4 for bags of 4 and 5 or of 6 and 7 points).
\<close>

definition weight_bounds ::
  "(int \<times> int) list \<Rightarrow> (rat \<times> int \<times> int) option \<times> rat option"
where
  \<comment> \<open>the loops of lines 391--403: the least weight with its \<^verbatim>\<open>n\<close> and \<^verbatim>\<open>m\<close>, and the
      greatest weight; \<open>None\<close> is the initial \<^verbatim>\<open>inf\<close> or \<^verbatim>\<open>-inf\<close>\<close>
  "weight_bounds pairs =
     fold (\<lambda>(wt, n, m) (lo, hi).
             ((case lo of
                 None \<Rightarrow> Some (wt, n, m)
               | Some (w0, _, _) \<Rightarrow> if wt < w0 then Some (wt, n, m) else lo),
              (case hi of
                 None \<Rightarrow> Some wt
               | Some w1 \<Rightarrow> if wt > w1 then Some wt else hi)))
       (concat (map (\<lambda>(n, m).
          (let base = (2 * of_int n - 1) / (of_int n + of_int m - 1)
           in [(base, n, m), (base * of_int m / of_int n, n, m)])) pairs))
       (None, None)"

definition get_jensen_shannon_core ::
  "int list \<Rightarrow> nat \<Rightarrow> nat list \<Rightarrow> nat list option \<Rightarrow> error + int"
where
  "get_jensen_shannon_core ks d X_ns Y_ns =
     (case (py_min (map int X_ns), py_max (map int X_ns)) of
        (Inr min_X_n, Inr max_X_n) \<Rightarrow>
          (case (case Y_ns of
                   None \<Rightarrow> (Inr min_X_n, Inr max_X_n)
                 | Some ys \<Rightarrow> (py_min (map int ys), py_max (map int ys))) of
             (Inr min_Y_n, Inr max_Y_n) \<Rightarrow>
               (case (py_min ks, py_max ks) of
                  (Inr min_K, Inr max_K) \<Rightarrow>
                    (let n_ms = [(min_X_n, min_Y_n), (min_X_n, max_Y_n),
                                 (max_X_n, min_Y_n), (max_X_n, max_Y_n)]
                     in case weight_bounds (n_ms @ map (\<lambda>(n, m). (m, n)) n_ms) of
                          (Some (w0, n0, m0), Some w1) \<Rightarrow>
                            if w0 * of_int min_K < 1
                            then Inl (KTooSmallForJensenShannon min_K (nat n0) (nat m0)
                                        \<lceil>1 / w0\<rceil>)
                            else Inr \<lceil>w1 * of_int max_K\<rceil>
                        | _ \<Rightarrow> Inl PyValueError)
                | _ \<Rightarrow> Inl PyValueError)
           | _ \<Rightarrow> Inl PyValueError)
      | _ \<Rightarrow> Inl PyValueError)"

subsection \<open>A concrete environment\<close>

text \<open>
  For the concrete runs: points on the integer line, an exact nearest-neighbour search,
  a square root that rounds down to an integer, and symbolic kernels, which record in each block of the tensor what was computed
  from what.
\<close>

datatype block =
    Base_result nat
      \<comment> \<open>what the kernel wrote into a row of the raw tensor\<close>
  | From_radii nat rhos
      \<comment> \<open>the same, together with the radii of X that the kernel was given\<close>
  | Meta_result func nat "block list"
      \<comment> \<open>the row of a meta function's result, and the blocks it was computed from\<close>

fun sqrt_down :: "nat \<Rightarrow> nat" where
  \<comment> \<open>the integer square root, rounding down\<close>
  "sqrt_down 0 = 0"
| "sqrt_down (Suc n) =
     (let r = sqrt_down n in if (r + 1) * (r + 1) \<le> Suc n then r + 1 else r)"

definition exact_nn :: "int FLANNIndex \<Rightarrow> int list \<Rightarrow> int \<Rightarrow> real list list" where
  "exact_nn idx queries k =
     (case idx of FLANNIndex pts \<Rightarrow>
        map (\<lambda>q. map real_of_int (take (nat k) (sort (map (\<lambda>p. (p - q) * (p - q)) pts))))
          queries)"

definition symbolic_cross_divs :: "int cross_divs_args \<Rightarrow> error + block list list" where
  "symbolic_cross_divs a =
     Inr (map (\<lambda>i. replicate (if arg_do_sym a then 2 else 1) (Base_result i))
            [0 ..< nat (arg_n_output a)])"

definition symbolic_meta ::
  "bound_func \<Rightarrow> rhos option \<Rightarrow> rhos option option \<Rightarrow> block list list list \<Rightarrow> bool \<Rightarrow>
     error + block list list"
where
  "symbolic_meta meta X_rhos Y_rhos required clamp0 =
     Inr (map (\<lambda>j. [Meta_result (unbound meta) j (concat (map (map hd) required))])
            [0 ..< (case meta of
                      Partial _ None _ _ \<Rightarrow> 1
                    | Partial _ (Some als) _ _ \<Rightarrow> length als
                    | Chosen _ None _ _ _ _ _ \<Rightarrow> 1
                    | Chosen _ (Some als) _ _ _ _ _ \<Rightarrow> length als)])"

definition float_table :: "string \<Rightarrow> real option" where
  "float_table =
     map_of [(''0.5'', 0.5), (''.5'', 0.5), (''0.8'', 0.8), (''.8'', 0.8), (''0.9'', 0.9),
             (''.9'', 0.9), (''0.3'', 0.3), (''2'', 2)]"

definition example_env :: "(int, block) env" where
  "example_env =
     \<lparr>py_float = float_table, set_pop_choice = (\<lambda>_. 0),
        js_core_max_i = get_jensen_shannon_core, nn_index = exact_nn,
        np_sqrt = (\<lambda>d. real (sqrt_down (nat \<lfloor>d\<rfloor>))),
        estimate_cross_divs = symbolic_cross_divs, meta_call = symbolic_meta\<rparr>"

definition kl_estimator :: "int estimator" where
  \<comment> \<open>the object that \<^verbatim>\<open>KNNDivergenceEstimator(div_funcs=('kl',), Ks=(2, 3), min_dist=0.5)\<close>
      constructs\<close>
  "kl_estimator =
     \<lparr>div_funcs = [''kl''], Ks = [2, 3], do_sym = False, clamp = True, min_dist = 1 / 2,
        flann_args_ok = True,
        base' = Some \<lparr>funcs_base' = [(Kl, \<lparr>alphas = None, pos = [0]\<rparr>)], metas_base' = [],
                       n_meta_only' = 0, save_all_Ks' = False\<rparr>,
        features' = None, funcs' = None, metas' = None, max_K' = None, indices' = None,
        rhos' = None, logged = []\<rparr>"

definition three_points :: "int Features" where
  "three_points = \<lparr>bags = [[0, 1, 3]], fdim = 1\<rparr>"

definition five_points :: "int Features" where
  "five_points = \<lparr>bags = [[0, 1, 3, 7, 12]], fdim = 1\<rparr>"

definition kl_chosen :: "int Features \<Rightarrow> int estimator" where
  \<comment> \<open>\<open>kl_estimator\<close> after \<^verbatim>\<open>self.features_ = X\<close> and \<^verbatim>\<open>self._choose_funcs(X)\<close>\<close>
  "kl_chosen X =
     kl_estimator\<lparr>features' := Some X,
        funcs' := Some [(Partial Kl None [2, 3] (fdim X), \<lparr>alphas = None, pos = [0]\<rparr>)],
        metas' := Some [], max_K' := Some 3\<rparr>"

definition radii_cross_divs :: "int cross_divs_args \<Rightarrow> error + block list list" where
  "radii_cross_divs a =
     Inr (map (\<lambda>i. replicate (if arg_do_sym a then 2 else 1) (From_radii i (arg_X_rhos a)))
            [0 ..< nat (arg_n_output a)])"

definition radii_env :: "(int, block) env" where
  \<comment> \<open>as \<open>example_env\<close>, with a kernel whose result shows the radii it was computed from\<close>
  "radii_env = example_env\<lparr>estimate_cross_divs := radii_cross_divs\<rparr>"

definition and_then ::
  "('s, 'x) result \<Rightarrow> ('s \<Rightarrow> ('s, 'y) result) \<Rightarrow> ('s, 'y) result"
where
  \<comment> \<open>one method call after another on the same object\<close>
  "and_then r f = (case r of Inl x \<Rightarrow> Inl x | Inr (_, s) \<Rightarrow> f s)"


definition six_points :: "int Features" where
  "six_points = \<lparr>bags = [[0, 1, 3, 7, 12, 20]], fdim = 1\<rparr>"

definition seven_points :: "int Features" where
  "seven_points = \<lparr>bags = [[0, 2, 3, 5, 9, 11, 14]], fdim = 1\<rparr>"



definition l2_estimator :: "int estimator" where
  \<comment> \<open>the object that \<^verbatim>\<open>KNNDivergenceEstimator(div_funcs=('l2',), Ks=(2, 3), min_dist=0.5)\<close>
      constructs; \<^verbatim>\<open>do_sym\<close> is false\<close>
  "l2_estimator =
     \<lparr>div_funcs = [''l2''], Ks = [2, 3], do_sym = False, clamp = True, min_dist = 1 / 2,
        flann_args_ok = True,
        base' = Some \<lparr>funcs_base' = [(Linear, \<lparr>alphas = None, pos = [- 1]\<rparr>)],
                       metas_base' = [(L2, \<lparr>alphas = None, pos = [0], deps = [- 1]\<rparr>)],
                       n_meta_only' = 1, save_all_Ks' = False\<rparr>,
        features' = None, funcs' = None, metas' = None, max_K' = None, indices' = None,
        rhos' = None, logged = []\<rparr>"

definition l2_fitted :: "int estimator" where
  \<comment> \<open>\<open>l2_estimator\<close> after \<^verbatim>\<open>fit(X)\<close> on \<open>five_points\<close>\<close>
  "l2_fitted =
     l2_estimator\<lparr>features' := Some five_points,
        funcs' := Some [(Chosen Linear None [2, 3] 1 [5] None None,
                         \<lparr>alphas = None, pos = [- 1]\<rparr>)],
        metas' := Some [(Partial L2 None [2, 3] 1,
                         \<lparr>alphas = None, pos = [0], deps = [- 1]\<rparr>)],
        max_K' := Some 3, indices' := Some (map FLANNIndex (bags five_points)),
        rhos' := Some [Some [[3, 7], [2, 6], [3, 4], [5, 6], [9, 11]]],
        logged := [Info ''Building indices...'', Info ''Getting within-bag distances...'']\<rparr>"

definition none_rejecting_env :: "(int, block) env" where
  \<comment> \<open>as \<open>example_env\<close>, with meta functions that fail when they are handed \<^verbatim>\<open>None\<close> for
      \<^verbatim>\<open>Y_rhos\<close>\<close>
  "none_rejecting_env =
     example_env\<lparr>meta_call :=
       (\<lambda>meta X_rhos Y_rhos required clamp0.
          case Y_rhos of
            Some None \<Rightarrow> Inl PyTypeError
          | _ \<Rightarrow> symbolic_meta meta X_rhos Y_rhos required clamp0)\<rparr>"

section \<open>Properties of the topological sort\<close>

lemma sort_loop_available_empty:
  "sort_loop pick order available ds = (order', available', deps') \<Longrightarrow> available' = []"
proof (induction pick order available ds rule: sort_loop.induct)
  case (1 pick order available ds)
  show ?case
  proof (cases "available = []")
    case True
    with "1.prems" show ?thesis by (simp add: sort_loop.simps)
  next
    case False
    obtain n available1 where p: "set_pop pick available = (n, available1)"
      by (cases "set_pop pick available")
    obtain available2 deps2
      where m: "move_available available1 (discard_all n ds) = (available2, deps2)"
      by (cases "move_available available1 (discard_all n ds)")
    have "sort_loop pick (order @ [n]) available2 deps2 = (order', available', deps')"
      using "1.prems" False p m by (simp add: sort_loop.simps [of pick order available ds])
    with "1.IH" [OF False p [symmetric] m [symmetric]] show ?thesis by simp
  qed
qed

lemma topological_sort_never_raises: "topological_sort pick ds \<noteq> Inl e"
proof -
  obtain available0 deps0 where m: "move_available [] ds = (available0, deps0)"
    by (cases "move_available [] ds")
  obtain order available deps1
    where s: "sort_loop pick [] available0 deps0 = (order, available, deps1)"
    by (cases "sort_loop pick [] available0 deps0")
  have "available = []"
    using sort_loop_available_empty [OF s] .
  then show ?thesis
    by (simp add: topological_sort_def m s)
qed

text \<open>
  C1. The claim: an acyclic meta dependency graph is ordered so that every meta function
  follows what it depends on, and a cyclic one makes \<^verbatim>\<open>topological_sort\<close> raise
  "dependency cycle found". The source tests \<^verbatim>\<open>if available:\<close> right after the loop
  \<^verbatim>\<open>while available:\<close> has ended, so the \<^verbatim>\<open>raise\<close> is never reached: on the two-node
  cycle \<^verbatim>\<open>{0: {1}, 1: {0}}\<close> the function returns the empty order, whatever \<^verbatim>\<open>pop\<close>
  chooses.
\<close>

theorem topological_sort_cycle_returns:
  "topological_sort pick [(0 :: nat, [1]), (1, [0])] = Inr []"
  by (simp add: topological_sort_def move_available_def sort_loop.simps)

section \<open>Helper lemmas on the Python operations\<close>

lemma py_min_nonempty:
  assumes "xs \<noteq> []"
  shows "py_min xs = Inr (Min (set xs))"
proof (cases xs)
  case Nil
  with assms show ?thesis by simp
next
  case (Cons x rest)
  have "py_min xs = Inr (fold min rest x)"
    by (simp add: py_min_def Cons)
  also have "fold min rest x = Min (set (x # rest))"
    by (rule Min.set_eq_fold [symmetric])
  finally show ?thesis
    by (simp only: Cons)
qed


lemma py_min_empty: "py_min [] = Inl PyValueError"
  by (simp add: py_min_def)

lemma map_err_Inl: "map_err f xs = Inl e \<Longrightarrow> \<exists>x \<in> set xs. f x = Inl e"
  by (induction xs) (auto split: sum.splits)

lemma map_err_Inr_length: "map_err f xs = Inr ys \<Longrightarrow> length ys = length xs"
  by (induction xs arbitrary: ys) (auto split: sum.splits)

lemma map_err_Inr_nth:
  "map_err f xs = Inr ys \<Longrightarrow> i < length xs \<Longrightarrow> f (xs ! i) = Inr (ys ! i)"
proof (induction xs arbitrary: ys i)
  case Nil
  then show ?case by simp
next
  case (Cons x xs)
  then show ?case by (cases i) (auto split: sum.splits)
qed

lemma py_nth_Inl: "py_nth xs i = Inl e \<Longrightarrow> e = PyIndexError"
  by (auto simp: py_nth_def Let_def split: if_splits)

lemma select_columns_Inl: "select_columns which r = Inl e \<Longrightarrow> e = PyIndexError"
  unfolding select_columns_def by (auto dest!: map_err_Inl dest: py_nth_Inl)

lemma bag_rhos_Inl: "bag_rhos E s save_all max_K bi = Inl e \<Longrightarrow> e = PyIndexError"
  by (auto simp: bag_rhos_def split: prod.splits sum.splits if_splits dest: select_columns_Inl)

lemma py_min_int:
  assumes "ns \<noteq> []"
  shows "py_min (map int ns) = Inr (int (Min (set ns)))"
proof -
  have "mono int" by (simp add: mono_def)
  then have "int (Min (set ns)) = Min (int ` set ns)"
    using assms by (intro mono_Min_commute) auto
  moreover have "py_min (map int ns) = Inr (Min (set (map int ns)))"
    using assms by (intro py_min_nonempty) simp
  ultimately show ?thesis by simp
qed

lemma check_Ks_X:
  assumes "bags X \<noteq> []" and "max_K' s = Some K"
  shows "check_Ks X None s =
           (if K \<ge> int (Min (set (n_pts X)))
            then Inl (InsufficientPoints K (Min (set (n_pts X))), s) else Inr ((), s))"
proof -
  have "n_pts X \<noteq> []"
    using assms(1) by (simp add: n_pts_def)
  then have "py_min (map int (n_pts X)) = Inr (int (Min (set (n_pts X))))"
    by (rule py_min_int)
  then show ?thesis
    using assms(2) by (simp add: check_Ks_def)
qed

lemma Min_le_iff_bag:
  assumes "bags X \<noteq> []"
  shows "int (Min (set (n_pts X))) \<le> K \<longleftrightarrow> (\<exists>bag \<in> set (bags X). int (length bag) \<le> K)"
proof -
  have fin: "finite (set (n_pts X))" "set (n_pts X) \<noteq> {}"
    using assms by (simp_all add: n_pts_def)
  have "int (Min (set (n_pts X))) \<le> K \<longleftrightarrow> (\<exists>n \<in> set (n_pts X). int n \<le> K)"
  proof
    assume "int (Min (set (n_pts X))) \<le> K"
    moreover have "Min (set (n_pts X)) \<in> set (n_pts X)"
      using fin by (intro Min_in)
    ultimately show "\<exists>n \<in> set (n_pts X). int n \<le> K" by blast
  next
    assume "\<exists>n \<in> set (n_pts X). int n \<le> K"
    then obtain n where n: "n \<in> set (n_pts X)" "int n \<le> K" by blast
    have "Min (set (n_pts X)) \<le> n"
      using fin n by (intro Min_le) auto
    with n show "int (Min (set (n_pts X))) \<le> K" by linarith
  qed
  then show ?thesis by (auto simp: n_pts_def)
qed

lemma get_rhos_error:
  assumes "get_rhos E X idx s = Inl (e, s')" and "bags X \<noteq> []" and "max_K' s = Some K"
    and "K < int (Min (set (n_pts X)))"
  shows "e = PyIndexError \<or> e = PyAttributeError"
proof -
  let ?s1 = "s\<lparr>logged := logged s @ [Info ''Getting within-bag distances...'']\<rparr>"
  have c: "check_Ks X None ?s1 = Inr ((), ?s1)"
    using assms(2,3,4) check_Ks_X [of X ?s1 K] by simp
  show ?thesis
    using assms(1) c
    by (auto simp: get_rhos_def Let_def split: option.splits sum.splits dest!: map_err_Inl dest: bag_rhos_Inl)
qed

lemma choose_funcs_fields:
  assumes "choose_funcs E X Y s = Inr (u, s1)"
  shows "\<exists>bp kmax fs ms. base' s = Some bp \<and> py_max (Ks s) = Inr kmax
           \<and> set_up_funcs E (funcs_base' bp) (metas_base' bp) (Ks s) (fdim X) (n_pts X)
                (map_option n_pts Y) = Inr (fs, ms)
           \<and> s1 = s\<lparr>funcs' := Some fs, metas' := Some ms,
                 max_K' := Some (fold_k_needed
                   (max kmax (case max_K' s of None \<Rightarrow> 0 | Some k \<Rightarrow> k)) fs)\<rparr>"
  using assms
  by (auto simp: choose_funcs_def Let_def split: option.splits sum.splits prod.splits)

section \<open>Properties of the specification resolver\<close>

text \<open>
  The loop over the specs keeps the invariant \<open>registered\<close>: after the well-formed
  tokens with the pairwise different requests \<open>ks\<close>, the slot of the \<open>k\<close>-th request is
  \<open>k\<close>, and the slot of what is only required is \<^verbatim>\<open>None\<close>. From such a state the rest of
  \<open>parse_specs\<close> succeeds: the numbering fills the unset positions with negative numbers,
  every dependency is found, and the topological sort returns every meta function.
\<close>

lemma index_of_Some: "index_of xs x = Some i \<Longrightarrow> i < length xs \<and> xs ! i = x"
proof (induction xs arbitrary: i)
  case Nil
  then show ?case by (simp add: index_of_def)
next
  case (Cons y ys)
  show ?case
  proof (cases "y = x")
    case True
    with Cons.prems show ?thesis by (simp add: index_of_def)
  next
    case False
    with Cons.prems obtain j where j: "index_of ys x = Some j" and i: "i = Suc j"
      by (auto simp: index_of_def split: if_splits)
    from Cons.IH [OF j] i show ?thesis by simp
  qed
qed

lemma index_of_None: "index_of xs x = None \<longleftrightarrow> x \<notin> set xs"
  by (simp add: index_of_def)

lemma index_of_in: "x \<in> set xs \<Longrightarrow> \<exists>i. index_of xs x = Some i"
  by (simp add: index_of_def)

lemma index_of_append:
  "index_of (xs @ [y]) x =
     (if x \<in> set xs then index_of xs x else if x = y then Some (length xs) else None)"
proof -
  have "x \<notin> set xs \<Longrightarrow> takeWhile (\<lambda>z. z \<noteq> x) (xs @ [y]) = xs @ takeWhile (\<lambda>z. z \<noteq> x) [y]"
    by (intro takeWhile_append2) auto
  moreover have "x \<in> set xs \<Longrightarrow> takeWhile (\<lambda>z. z \<noteq> x) (xs @ [y]) = takeWhile (\<lambda>z. z \<noteq> x) xs"
    by (auto intro: takeWhile_append1)
  ultimately show ?thesis
    by (auto simp: index_of_def)
qed

lemma index_of_single: "index_of [y] x = (if x = y then Some 0 else None)"
  by (simp add: index_of_def)

lemma index_of_inj:
  "index_of xs x = Some i \<Longrightarrow> index_of xs y = Some i \<Longrightarrow> x = y"
  by (metis index_of_Some)

lemma map_of_update:
  "map_of (AList.update k v al) k' = (if k' = k then Some v else map_of al k')"
  by (simp add: update_conv')

lemma keys_update: "fst ` set (AList.update k v al) = insert k (fst ` set al)"
  using dom_update [of k v al] by (simp add: dom_map_of_conv_image_fst)

lemma in_update_set:
  "distinct (map fst al) \<Longrightarrow>
     (k', v') \<in> set (AList.update k v al) \<longleftrightarrow> (if k' = k then v' = v else (k', v') \<in> set al)"
proof -
  assume d: "distinct (map fst al)"
  then have d': "distinct (map fst (AList.update k v al))"
    by (rule distinct_update)
  have "(k', v') \<in> set (AList.update k v al) \<longleftrightarrow> map_of (AList.update k v al) k' = Some v'"
    using d' by simp
  also have "\<dots> \<longleftrightarrow> (if k' = k then v' = v else map_of al k' = Some v')"
    by (auto simp: map_of_update)
  also have "\<dots> \<longleftrightarrow> (if k' = k then v' = v else (k', v') \<in> set al)"
    using d by simp
  finally show ?thesis .
qed

lemma info_pos_new_alpha: "info_pos \<lparr>alphas = Some [a], pos = [p]\<rparr> b = (if b = a then Some p else None)"
  by (simp add: info_pos_def index_of_single)

lemma info_pos_new_plain: "info_pos \<lparr>alphas = None, pos = [p]\<rparr> b = Some p"
  by (simp add: info_pos_def)

lemma info_pos_set_plain:
  "alphas info = None \<Longrightarrow> length (pos info) = 1 \<Longrightarrow>
     info_pos (info\<lparr>pos := (pos info)[0 := p]\<rparr>) b = Some p"
  by (cases "pos info") (simp_all add: info_pos_def)

lemma info_pos_plain:
  "alphas info = None \<Longrightarrow> length (pos info) = 1 \<Longrightarrow> info_pos info b = Some (pos info ! 0)"
  by (cases "pos info") (simp_all add: info_pos_def)

lemma info_pos_append:
  "alphas info = Some als \<Longrightarrow> length (pos info) = length als \<Longrightarrow> a \<notin> set als \<Longrightarrow>
     info_pos (info\<lparr>alphas := Some (als @ [a]), pos := pos info @ [p]\<rparr>) b =
       (if b = a then Some p else info_pos info b)"
  by (auto simp: info_pos_def index_of_append nth_append index_of_None
      dest: index_of_Some split: option.splits)

lemma info_pos_set_alpha:
  assumes al: "alphas info = Some als" and len: "length (pos info) = length als"
    and ia: "index_of als a = Some idx"
  shows "info_pos (info\<lparr>pos := (pos info)[idx := p]\<rparr>) b =
           (if b = a then Some p else info_pos info b)"
proof (cases "b = a")
  case True
  have "idx < length als" using index_of_Some [OF ia] by simp
  then show ?thesis
    using True al len ia by (simp add: info_pos_def)
next
  case False
  show ?thesis
  proof (cases "index_of als b")
    case None
    then show ?thesis using False al by (simp add: info_pos_def)
  next
    case (Some j)
    have "j \<noteq> idx" using index_of_inj [OF Some] ia False by auto
    then show ?thesis using False al Some by (simp add: info_pos_def)
  qed
qed

lemma info_pos_alpha_None:
  "alphas info = Some als \<Longrightarrow> index_of als a = None \<Longrightarrow> info_pos info a = None"
  by (simp add: info_pos_def)

lemma info_pos_alpha_Some:
  "alphas info = Some als \<Longrightarrow> length (pos info) = length als \<Longrightarrow> index_of als a = Some idx \<Longrightarrow>
     info_pos info a = Some (pos info ! idx)"
  by (auto simp: info_pos_def dest: index_of_Some)

lemma single_requirement:
  assumes "needs_results f = Some reqs"
  shows "\<exists>req. reqs = [req] \<and> needs_results (req_func req) = None
           \<and> key_ok (req_func req) (eval_req_alpha (req_alpha req) a)"
  using assms by (cases f) (auto simp: key_ok_def eval_req_alpha_def)

lemma entry_ok:
  assumes "state_ok st" and "map_of (get_dict st f) f = Some info"
  shows "ok_info f info"
proof -
  have "(f, info) \<in> set (get_dict st f)"
    using assms(2) by (rule map_of_SomeD)
  then show ?thesis
    using assms(1) by (auto simp: state_ok_def get_dict_def split: option.splits)
qed

lemma get_dict_put:
  "map_of (get_dict (put_dict f info st) g) g =
     (if g = f then Some info else map_of (get_dict st g) g)"
  by (auto simp: get_dict_def put_dict_def map_of_update split: option.splits)

lemma slot_put:
  "slot (put_dict f info st) g b =
     (if g = f then (if key_ok f b then info_pos info b else None) else slot st g b)"
  by (simp add: slot_def get_dict_put)

lemma slot_meta_deps [simp]: "slot (st\<lparr>meta_deps := md\<rparr>) g b = slot st g b"
  by (simp add: slot_def get_dict_def split: option.splits)

lemma state_ok_meta_deps [simp]: "state_ok (st\<lparr>meta_deps := md\<rparr>) = state_ok st"
  by (simp add: state_ok_def)

lemma state_ok_put:
  assumes "state_ok st" and "ok_info f info"
  shows "state_ok (put_dict f info st)"
proof (cases "needs_results f")
  case None
  have d: "distinct (map fst (funcs st))" using assms(1) by (simp add: state_ok_def)
  show ?thesis
    using assms None d
    by (auto simp: state_ok_def put_dict_def distinct_update in_update_set split: if_splits)
next
  case (Some reqs)
  have d: "distinct (map fst (metas st))" using assms(1) by (simp add: state_ok_def)
  show ?thesis
    using assms Some d
    by (auto simp: state_ok_def put_dict_def distinct_update in_update_set split: if_splits)
qed

lemma put_dict_fields [simp]:
  "meta_deps (put_dict f info st) = meta_deps st"
  by (simp add: put_dict_def split: option.splits)

lemma slot_absent: "map_of (get_dict st f) f = None \<Longrightarrow> slot st f a = None"
  by (simp add: slot_def)

lemma slot_plain:
  assumes "state_ok st" and "map_of (get_dict st f) f = Some info" and "\<not> needs_alpha f"
    and "key_ok f a"
  shows "slot st f a = Some (pos info ! 0)" and "alphas info = None" and "length (pos info) = 1"
proof -
  have ok: "ok_info f info" using entry_ok [OF assms(1,2)] .
  then show al: "alphas info = None" and len: "length (pos info) = 1"
    using assms(3) by (simp_all add: ok_info_def)
  show "slot st f a = Some (pos info ! 0)"
    using assms(2,4) info_pos_plain [OF al len] by (simp add: slot_def)
qed

lemma slot_alpha:
  assumes "state_ok st" and "map_of (get_dict st f) f = Some info" and "needs_alpha f"
  shows "\<exists>als. alphas info = Some als \<and> length (pos info) = length als
           \<and> slot st f a = (case index_of als a of None \<Rightarrow> None | Some idx \<Rightarrow> Some (pos info ! idx))"
proof -
  have ok: "ok_info f info" using entry_ok [OF assms(1,2)] .
  then obtain als where al: "alphas info = Some als" and len: "length (pos info) = length als"
    using assms(3) by (auto simp: ok_info_def split: option.splits)
  have k: "key_ok f a" using assms(3) by (simp add: key_ok_def)
  have "slot st f a = (case index_of als a of None \<Rightarrow> None | Some idx \<Rightarrow> Some (pos info ! idx))"
    using assms(2) k al len
    by (auto simp: slot_def info_pos_def dest: index_of_Some split: option.splits)
  with al len show ?thesis by blast
qed

lemma put_dict_base_metas: "needs_results f = None \<Longrightarrow> metas (put_dict f info st) = metas st"
  by (simp add: put_dict_def)

lemma own_slot_absent: "slot st f a = None \<Longrightarrow> own_slot st f a p = Some p"
  by (simp add: own_slot_def split: option.splits)

lemma add_leaf_ok:
  assumes base: "needs_results f = None" and ok: "state_ok st" and key: "key_ok f a"
    and free: "p = None \<or> (\<forall>j. slot st f a \<noteq> Some (Some j))"
  shows "\<exists>st'. add_func name f a p st = Inr st' \<and> state_ok st' \<and> metas st' = metas st
           \<and> meta_deps st' = meta_deps st
           \<and> (\<forall>g b. slot st' g b = (if g = f \<and> b = a then own_slot st f a p else slot st g b))"
proof (cases "map_of (get_dict st f) f")
  case None
  let ?new = "\<lparr>alphas = (if needs_alpha f then Some [a] else None), pos = [p]\<rparr>"
  have run: "add_func name f a p st = Inr (put_dict f ?new st)"
    using None base by (subst add_func.simps) simp
  have okn: "ok_info f ?new" by (simp add: ok_info_def)
  have abs: "\<And>b. slot st f b = None" using None by (simp add: slot_def)
  have sl: "slot (put_dict f ?new st) g b
              = (if g = f \<and> b = a then own_slot st f a p else slot st g b)" for g b
  proof (cases "g = f")
    case False
    then show ?thesis by (simp add: slot_put)
  next
    case True
    show ?thesis
    proof (cases "needs_alpha f")
      case na: True
      then show ?thesis
        using True abs by (simp add: slot_put key_ok_def info_pos_new_alpha own_slot_absent)
    next
      case nna: False
      then have "a = None" using key by (simp add: key_ok_def)
      then show ?thesis
        using True nna abs
        by (auto simp: slot_put key_ok_def info_pos_new_plain own_slot_absent)
    qed
  qed
  show ?thesis
    using run state_ok_put [OF ok okn] put_dict_base_metas [OF base] sl by auto
next
  case (Some info)
  show ?thesis
  proof (cases "needs_alpha f")
    case False
    have s: "slot st f a = Some (pos info ! 0)" and al: "alphas info = None"
      and len: "length (pos info) = 1"
      using slot_plain [OF ok Some False key] by auto
    have aN: "a = None" using key False by (simp add: key_ok_def)
    show ?thesis
    proof (cases p)
      case None
      then have run: "add_func name f a p st = Inr st"
        using Some base False by (subst add_func.simps) simp
      have "own_slot st f a p = slot st f a"
        using None s by (simp add: own_slot_def)
      then show ?thesis using run ok by auto
    next
      case (Some i)
      then have "pos info ! 0 = None" using free s by (cases "pos info ! 0") auto
      then have pn: "pos info = [None]"
        using len by (cases "pos info") auto
      let ?info = "info\<lparr>pos := (pos info)[0 := p]\<rparr>"
      have run: "add_func name f a p st = Inr (put_dict f ?info st)"
        using \<open>map_of (get_dict st f) f = Some info\<close> base False Some pn
        by (subst add_func.simps) simp
      have okn: "ok_info f ?info" using False al len by (simp add: ok_info_def)
      have sl: "slot (put_dict f ?info st) g b
              = (if g = f \<and> b = a then own_slot st f a p else slot st g b)" for g b
      proof (cases "g = f")
        case False
        then show ?thesis by (simp add: slot_put)
      next
        case True
        have "\<not> key_ok f b \<Longrightarrow> slot st f b = None" by (simp add: slot_def)
        then show ?thesis
          using True \<open>\<not> needs_alpha f\<close> aN Some
          by (auto simp: slot_put key_ok_def own_slot_def info_pos_set_plain [OF al len])
      qed
      show ?thesis
        using run state_ok_put [OF ok okn] put_dict_base_metas [OF base] sl by auto
    qed
  next
    case True
    obtain als where al: "alphas info = Some als" and len: "length (pos info) = length als"
      and s: "slot st f a = (case index_of als a of None \<Rightarrow> None | Some idx \<Rightarrow> Some (pos info ! idx))"
      using slot_alpha [OF ok Some True, of a] by blast
    have kb: "\<And>b. key_ok f b" using True by (simp add: key_ok_def)
    have sb: "\<And>b. slot st f b = info_pos info b"
      using Some kb by (simp add: slot_def)
    show ?thesis
    proof (cases "index_of als a")
      case None
      let ?info = "info\<lparr>alphas := Some (als @ [a]), pos := pos info @ [p]\<rparr>"
      have run: "add_func name f a p st = Inr (put_dict f ?info st)"
        using Some base True al None by (subst add_func.simps) simp
      have okn: "ok_info f ?info" using True len by (simp add: ok_info_def)
      have nin: "a \<notin> set als" using None by (simp add: index_of_None)
      have s0: "slot st f a = None" using s None by simp
      have sl: "slot (put_dict f ?info st) g b
              = (if g = f \<and> b = a then own_slot st f a p else slot st g b)" for g b
        using kb sb s0
        by (simp add: slot_put own_slot_absent info_pos_append [OF al len nin])
      show ?thesis
        using run state_ok_put [OF ok okn] put_dict_base_metas [OF base] sl by auto
    next
      case (Some idx)
      have idx: "idx < length (pos info)" using index_of_Some [OF Some] len by simp
      have s1: "slot st f a = Some (pos info ! idx)" using s Some by simp
      show ?thesis
      proof (cases p)
        case None
        then have run: "add_func name f a p st = Inr st"
          using \<open>map_of (get_dict st f) f = Some info\<close> base True al Some
          by (subst add_func.simps) simp
        have "own_slot st f a p = slot st f a"
          using None s1 by (simp add: own_slot_def)
        then show ?thesis using run ok by auto
      next
        case (Some i)
        then have pn: "pos info ! idx = None" using free s1 by (cases "pos info ! idx") auto
        let ?info = "info\<lparr>pos := (pos info)[idx := p]\<rparr>"
        have run: "add_func name f a p st = Inr (put_dict f ?info st)"
          using \<open>map_of (get_dict st f) f = Some info\<close> base True al
            \<open>index_of als a = Some idx\<close> Some idx pn
          by (subst add_func.simps) simp
        have okn: "ok_info f ?info"
          using True al len \<open>index_of als a = Some idx\<close>
          by (auto simp: ok_info_def index_of_def)
        have sl: "slot (put_dict f ?info st) g b
              = (if g = f \<and> b = a then own_slot st f a p else slot st g b)" for g b
          using kb sb Some
          by (simp add: slot_put own_slot_def
              info_pos_set_alpha [OF al len \<open>index_of als a = Some idx\<close>])
        show ?thesis
          using run state_ok_put [OF ok okn] put_dict_base_metas [OF base] sl by auto
      qed
    qed
  qed
qed

lemma add_func_duplicate:
  assumes ok: "state_ok st" and key: "key_ok f a" and vis: "slot st f a = Some (Some j)"
  shows "add_func name f a (Some i) st = Inl (duplicate_error name f a)"
proof (cases "map_of (get_dict st f) f")
  case None
  then have "slot st f a = None" by (rule slot_absent)
  then show ?thesis using vis by simp
next
  case (Some info)
  show ?thesis
  proof (cases "needs_alpha f")
    case False
    have s: "slot st f a = Some (pos info ! 0)" and len: "length (pos info) = 1"
      using slot_plain [OF ok Some False key] by auto
    then have "pos info \<noteq> [None]" using vis by auto
    then show ?thesis
      using Some False by (subst add_func.simps) (simp add: duplicate_error_def)
  next
    case True
    obtain als where al: "alphas info = Some als" and len: "length (pos info) = length als"
      and s: "slot st f a = (case index_of als a of None \<Rightarrow> None | Some idx \<Rightarrow> Some (pos info ! idx))"
      using slot_alpha [OF ok Some True, of a] by blast
    obtain idx where i: "index_of als a = Some idx" and p: "pos info ! idx = Some j"
      using s vis by (cases "index_of als a") auto
    have "idx < length (pos info)" using index_of_Some [OF i] len by simp
    then show ?thesis
      using Some True al i p by (subst add_func.simps) (simp add: duplicate_error_def)
  qed
qed

lemma put_dict_meta_funcs: "needs_results f = Some reqs \<Longrightarrow> funcs (put_dict f info st) = funcs st"
  by (simp add: put_dict_def)

lemma put_dict_meta_keys:
  "needs_results f = Some reqs \<Longrightarrow>
     fst ` set (metas (put_dict f info st)) = insert f (fst ` set (metas st))"
  by (simp add: put_dict_def keys_update)

lemma meta_present_key:
  "needs_results f = Some reqs \<Longrightarrow> map_of (get_dict st f) f = Some info \<Longrightarrow>
     f \<in> fst ` set (metas st)"
  by (auto simp: get_dict_def dest: map_of_SomeD intro: rev_image_eqI)

lemma add_requirement:
  assumes meta: "needs_results f = Some [req]" and ok0: "state_ok st0"
    and base: "needs_results (req_func req) = None"
    and key: "key_ok (req_func req) ra"
  shows "\<exists>st2. add_func name (req_func req) ra None st0 = Inr st2 \<and> state_ok st2
           \<and> metas st2 = metas st0 \<and> meta_deps st2 = meta_deps st0
           \<and> (\<forall>g b. slot st2 g b =
                 (if g = req_func req \<and> b = ra then own_slot st0 (req_func req) ra None
                  else slot st0 g b))"
  using add_leaf_ok [OF base ok0 key, of None name] by simp

lemma add_meta_ok:
  assumes meta: "needs_results f = Some [req]" and ok: "state_ok st" and key: "key_ok f a"
    and free: "p = None \<or> (\<forall>j. slot st f a \<noteq> Some (Some j))"
    and base: "needs_results (req_func req) = None"
    and rkey: "key_ok (req_func req) (eval_req_alpha (req_alpha req) a)"
  shows "\<exists>st'. add_func name f a p st = Inr st' \<and> state_ok st'
           \<and> fst ` set (metas st') = insert f (fst ` set (metas st))
           \<and> meta_deps st' =
               (if map_of (metas st) f = None
                then dd_touch (req_func req) (dd_add f (req_func req) (meta_deps st))
                else meta_deps st)
           \<and> (\<forall>g b. slot st' g b =
                 (if g = f \<and> b = a then own_slot st f a p
                  else if slot st f a = None \<and> g = req_func req
                          \<and> b = eval_req_alpha (req_alpha req) a
                  then own_slot st (req_func req) (eval_req_alpha (req_alpha req) a) None
                  else slot st g b))"
proof -
  let ?rf = "req_func req" and ?ra = "eval_req_alpha (req_alpha req) a"
  have gd: "get_dict st f = metas st" using meta by (simp add: get_dict_def)
  have neq: "?rf \<noteq> f" using base meta by auto
  show ?thesis
  proof (cases "map_of (get_dict st f) f")
    case None
    let ?new = "\<lparr>alphas = (if needs_alpha f then Some [a] else None), pos = [p]\<rparr>"
    let ?st0 = "put_dict f ?new st"
    have okn: "ok_info f ?new" by (simp add: ok_info_def)
    have ok0: "state_ok ?st0" using state_ok_put [OF ok okn] .
    obtain st2 where r: "add_func name ?rf ?ra None ?st0 = Inr st2" and ok2: "state_ok st2"
      and m2: "metas st2 = metas ?st0" and d2: "meta_deps st2 = meta_deps ?st0"
      and s2: "\<And>g b. slot st2 g b =
                 (if g = ?rf \<and> b = ?ra then own_slot ?st0 ?rf ?ra None else slot ?st0 g b)"
      using add_requirement [OF meta ok0 base rkey, of name] by blast
    let ?st' = "st2\<lparr>meta_deps := dd_touch ?rf (dd_add f ?rf (meta_deps st2))\<rparr>"
    have run: "add_func name f a p st = Inr ?st'"
      using None meta r by (subst add_func.simps) simp
    have abs: "\<And>b. slot st f b = None" using None by (simp add: slot_def)
    have s0: "slot ?st0 g b = (if g = f \<and> b = a then own_slot st f a p else slot st g b)" for g b
    proof (cases "g = f")
      case False
      then show ?thesis by (simp add: slot_put)
    next
      case True
      show ?thesis
      proof (cases "needs_alpha f")
        case na: True
        then show ?thesis
          using True abs by (simp add: slot_put key_ok_def info_pos_new_alpha own_slot_absent)
      next
        case nna: False
        then have "a = None" using key by (simp add: key_ok_def)
        then show ?thesis
          using True nna abs
          by (auto simp: slot_put key_ok_def info_pos_new_plain own_slot_absent)
      qed
    qed
    have own_r: "own_slot ?st0 ?rf ?ra None = own_slot st ?rf ?ra None"
      using s0 [of ?rf ?ra] neq by (simp add: own_slot_def)
    have sl: "slot ?st' g b =
                 (if g = f \<and> b = a then own_slot st f a p
                  else if slot st f a = None \<and> g = ?rf \<and> b = ?ra
                  then own_slot st ?rf ?ra None
                  else slot st g b)" for g b
      using s2 [of g b] s0 [of g b] own_r neq abs by auto
    have keys: "fst ` set (metas ?st') = insert f (fst ` set (metas st))"
      using m2 put_dict_meta_keys [OF meta] by simp
    have deps: "meta_deps ?st' = dd_touch ?rf (dd_add f ?rf (meta_deps st))"
      using d2 by simp
    have mN: "map_of (metas st) f = None" using None gd by simp
    show ?thesis
      using run ok2 keys deps mN sl by auto
  next
    case (Some info)
    have present: "f \<in> fst ` set (metas st)"
      using meta_present_key [OF meta Some] .
    have mS: "map_of (metas st) f \<noteq> None" using Some gd by simp
    have same_keys: "insert f (fst ` set (metas st)) = fst ` set (metas st)"
      using present by auto
    show ?thesis
    proof (cases "needs_alpha f")
      case False
      have s: "slot st f a = Some (pos info ! 0)" and al: "alphas info = None"
        and len: "length (pos info) = 1"
        using slot_plain [OF ok Some False key] by auto
      have aN: "a = None" using key False by (simp add: key_ok_def)
      show ?thesis
      proof (cases p)
        case None
        then have run: "add_func name f a p st = Inr st"
          using Some False by (subst add_func.simps) simp
        have "own_slot st f a p = slot st f a"
          using None s by (simp add: own_slot_def)
        then show ?thesis using run ok mS same_keys s by auto
      next
        case (Some i)
        then have "pos info ! 0 = None" using free s by (cases "pos info ! 0") auto
        then have pn: "pos info = [None]"
          using len by (cases "pos info") auto
        let ?info = "info\<lparr>pos := (pos info)[0 := p]\<rparr>"
        have run: "add_func name f a p st = Inr (put_dict f ?info st)"
          using \<open>map_of (get_dict st f) f = Some info\<close> False Some pn
          by (subst add_func.simps) simp
        have okn: "ok_info f ?info" using False al len by (simp add: ok_info_def)
        have sl: "slot (put_dict f ?info st) g b
                = (if g = f \<and> b = a then own_slot st f a p else slot st g b)" for g b
        proof (cases "g = f")
          case False
          then show ?thesis by (simp add: slot_put)
        next
          case True
          have "\<not> key_ok f b \<Longrightarrow> slot st f b = None" by (simp add: slot_def)
          then show ?thesis
            using True \<open>\<not> needs_alpha f\<close> aN Some
            by (auto simp: slot_put key_ok_def own_slot_def info_pos_set_plain [OF al len])
        qed
        show ?thesis
          using run state_ok_put [OF ok okn] put_dict_meta_keys [OF meta, of ?info st]
            same_keys sl mS s by auto
      qed
    next
      case True
      obtain als where al: "alphas info = Some als" and len: "length (pos info) = length als"
        and s: "slot st f a = (case index_of als a of None \<Rightarrow> None | Some idx \<Rightarrow> Some (pos info ! idx))"
        using slot_alpha [OF ok Some True, of a] by blast
      have kb: "\<And>b. key_ok f b" using True by (simp add: key_ok_def)
      have sb: "\<And>b. slot st f b = info_pos info b"
        using Some kb by (simp add: slot_def)
      show ?thesis
      proof (cases "index_of als a")
        case None
        let ?info = "info\<lparr>alphas := Some (als @ [a]), pos := pos info @ [p]\<rparr>"
        let ?st0 = "put_dict f ?info st"
        have okn: "ok_info f ?info" using True len by (simp add: ok_info_def)
        have ok0: "state_ok ?st0" using state_ok_put [OF ok okn] .
        obtain st2 where r: "add_func name ?rf ?ra None ?st0 = Inr st2" and ok2: "state_ok st2"
          and m2: "metas st2 = metas ?st0" and d2: "meta_deps st2 = meta_deps ?st0"
          and s2: "\<And>g b. slot st2 g b =
                 (if g = ?rf \<and> b = ?ra then own_slot ?st0 ?rf ?ra None else slot ?st0 g b)"
          using add_requirement [OF meta ok0 base rkey, of name] by blast
        have run: "add_func name f a p st = Inr st2"
          using Some meta True al None r by (subst add_func.simps) simp
        have nin: "a \<notin> set als" using None by (simp add: index_of_None)
        have sN: "slot st f a = None" using s None by simp
        have s0: "slot ?st0 g b = (if g = f \<and> b = a then own_slot st f a p else slot st g b)"
          for g b
          using kb sb sN
          by (simp add: slot_put own_slot_absent info_pos_append [OF al len nin])
        have own_r: "own_slot ?st0 ?rf ?ra None = own_slot st ?rf ?ra None"
          using s0 [of ?rf ?ra] neq by (simp add: own_slot_def)
        have sl: "slot st2 g b =
                 (if g = f \<and> b = a then own_slot st f a p
                  else if slot st f a = None \<and> g = ?rf \<and> b = ?ra
                  then own_slot st ?rf ?ra None
                  else slot st g b)" for g b
          using s2 [of g b] s0 [of g b] own_r neq sN by auto
        have keys: "fst ` set (metas st2) = insert f (fst ` set (metas st))"
          using m2 put_dict_meta_keys [OF meta] by simp
        have deps: "meta_deps st2 = meta_deps st"
          using d2 by simp
        show ?thesis
          using run ok2 keys deps mS sl by auto
      next
        case (Some idx)
        have idx: "idx < length (pos info)" using index_of_Some [OF Some] len by simp
        have s1: "slot st f a = Some (pos info ! idx)" using s Some by simp
        show ?thesis
        proof (cases p)
          case None
          then have run: "add_func name f a p st = Inr st"
            using \<open>map_of (get_dict st f) f = Some info\<close> True al Some
            by (subst add_func.simps) simp
          have "own_slot st f a p = slot st f a"
            using None s1 by (simp add: own_slot_def)
          then show ?thesis using run ok mS same_keys s1 by auto
        next
          case (Some i)
          then have pn: "pos info ! idx = None" using free s1 by (cases "pos info ! idx") auto
          let ?info = "info\<lparr>pos := (pos info)[idx := p]\<rparr>"
          have run: "add_func name f a p st = Inr (put_dict f ?info st)"
            using \<open>map_of (get_dict st f) f = Some info\<close> True al
              \<open>index_of als a = Some idx\<close> Some idx pn
            by (subst add_func.simps) simp
          have okn: "ok_info f ?info"
          using True al len \<open>index_of als a = Some idx\<close>
          by (auto simp: ok_info_def index_of_def)
          have sl: "slot (put_dict f ?info st) g b
                = (if g = f \<and> b = a then own_slot st f a p else slot st g b)" for g b
            using kb sb Some
            by (simp add: slot_put own_slot_def
                info_pos_set_alpha [OF al len \<open>index_of als a = Some idx\<close>])
          show ?thesis
            using run state_ok_put [OF ok okn] put_dict_meta_keys [OF meta, of ?info st]
              same_keys sl mS s1 by auto
        qed
      qed
    qed
  qed
qed

lemma required_by_base: "needs_results f = None \<Longrightarrow> \<not> required_by f a g b"
  by (simp add: required_by_def)

lemma required_by_single:
  "needs_results f = Some [req] \<Longrightarrow>
     required_by f a g b \<longleftrightarrow> g = req_func req \<and> b = eval_req_alpha (req_alpha req) a"
  by (simp add: required_by_def)

lemma required_by_is_base: "required_by f a g b \<Longrightarrow> needs_results g = None \<and> needs_results f \<noteq> None"
proof -
  assume r: "required_by f a g b"
  then obtain reqs where m: "needs_results f = Some reqs"
    by (auto simp: required_by_def split: option.splits)
  obtain req where "reqs = [req]" "needs_results (req_func req) = None"
    using single_requirement [OF m] by blast
  then show ?thesis using r m by (simp add: required_by_def)
qed

lemma md_ok_update:
  assumes ok: "md_ok md"
    and new: "needs_results c = None \<longrightarrow> ps = []"
    and par: "\<forall>q \<in> set ps. needs_results q = None \<and> q \<in> insert c (fst ` set md)"
  shows "md_ok (AList.update c ps md)"
proof -
  have d: "distinct (map fst md)" using ok by (simp add: md_ok_def)
  have keys: "fst ` set (AList.update c ps md) = insert c (fst ` set md)"
    by (rule keys_update)
  show ?thesis
    unfolding md_ok_def
  proof (intro conjI allI impI)
    show "distinct (map fst (AList.update c ps md))"
      using d by (rule distinct_update)
  next
    fix c' ps' assume "(c', ps') \<in> set (AList.update c ps md)" "needs_results c' = None"
    then show "ps' = []"
      using in_update_set [OF d, of c' ps' c ps] new ok
      by (auto simp: md_ok_def split: if_splits)
  next
    fix c' ps' assume in': "(c', ps') \<in> set (AList.update c ps md)"
    show "\<forall>q \<in> set ps'. needs_results q = None \<and> q \<in> fst ` set (AList.update c ps md)"
    proof (cases "c' = c")
      case True
      then have "ps' = ps" using in' in_update_set [OF d, of c' ps' c ps] by simp
      then show ?thesis using par keys by simp
    next
      case False
      then have "(c', ps') \<in> set md" using in' in_update_set [OF d, of c' ps' c ps] by simp
      then show ?thesis using ok keys by (fastforce simp: md_ok_def)
    qed
  qed
qed

lemma md_ok_step:
  assumes ok: "md_ok md" and meta: "needs_results f \<noteq> None" and base: "needs_results rf = None"
  shows "md_ok (dd_touch rf (dd_add f rf md))
       \<and> fst ` set (dd_touch rf (dd_add f rf md)) = insert rf (insert f (fst ` set md))"
proof -
  let ?md1 = "dd_add f rf md"
  have d: "distinct (map fst md)" using ok by (simp add: md_ok_def)
  have k1: "fst ` set ?md1 = insert f (fst ` set md)"
    by (simp add: dd_add_def keys_update split: option.splits)
  let ?md2 = "dd_touch rf ?md1"
  have k2: "fst ` set ?md2 = insert rf (insert f (fst ` set md))"
  proof (cases "map_of ?md1 rf")
    case None
    then show ?thesis by (simp add: dd_touch_def keys_update k1)
  next
    case (Some ps)
    then have "rf \<in> fst ` set ?md1"
      by (auto dest!: map_of_SomeD intro: rev_image_eqI)
    then show ?thesis using Some k1 by (auto simp: dd_touch_def)
  qed
  text \<open>a weaker invariant holds in between: the new parent may not be a key yet\<close>
  have d1: "distinct (map fst ?md1)"
    using d by (simp add: dd_add_def distinct_update split: option.splits)
  have ent1: "(c, ps) \<in> set ?md1 \<Longrightarrow>
       (needs_results c = None \<longrightarrow> ps = [])
     \<and> (\<forall>q \<in> set ps. needs_results q = None \<and> q \<in> insert rf (fst ` set ?md1))" for c ps
  proof -
    assume in1: "(c, ps) \<in> set ?md1"
    show ?thesis
    proof (cases "map_of md f")
      case None
      then have "?md1 = AList.update f [rf] md" by (simp add: dd_add_def)
      then have "if c = f then ps = [rf] else (c, ps) \<in> set md"
        using in1 in_update_set [OF d, of c ps f "[rf]"] by simp
      then show ?thesis
        using ok meta base k1 by (fastforce simp: md_ok_def split: if_splits)
    next
      case (Some ps0)
      then have e: "?md1 = AList.update f (set_add rf ps0) md" by (simp add: dd_add_def)
      have p0: "(f, ps0) \<in> set md" using Some by (rule map_of_SomeD)
      have "if c = f then ps = set_add rf ps0 else (c, ps) \<in> set md"
        using in1 e in_update_set [OF d, of c ps f "set_add rf ps0"] by simp
      moreover have "set (set_add rf ps0) = insert rf (set ps0)"
        by (auto simp: set_add_def)
      ultimately show ?thesis
        using ok meta base k1 p0 by (fastforce simp: md_ok_def split: if_splits)
    qed
  qed
  have "md_ok ?md2"
  proof (cases "map_of ?md1 rf")
    case None
    then have e: "?md2 = AList.update rf [] ?md1" by (simp add: dd_touch_def)
    have k: "fst ` set ?md2 = insert rf (fst ` set ?md1)" using e by (simp add: keys_update)
    show ?thesis
      unfolding md_ok_def
    proof (intro conjI allI impI)
      show "distinct (map fst ?md2)" using e d1 by (simp add: distinct_update)
    next
      fix c ps assume "(c, ps) \<in> set ?md2" "needs_results c = None"
      then show "ps = []"
        using e in_update_set [OF d1, of c ps rf "[]"] ent1 [of c ps] by (auto split: if_splits)
    next
      fix c ps assume "(c, ps) \<in> set ?md2"
      then have "if c = rf then ps = [] else (c, ps) \<in> set ?md1"
        using e in_update_set [OF d1, of c ps rf "[]"] by simp
      then show "\<forall>q \<in> set ps. needs_results q = None \<and> q \<in> fst ` set ?md2"
        using ent1 [of c ps] k by (auto split: if_splits)
    qed
  next
    case (Some ps)
    then have e: "?md2 = ?md1" by (simp add: dd_touch_def)
    have "rf \<in> fst ` set ?md1"
      using Some by (auto dest!: map_of_SomeD intro: rev_image_eqI)
    then have "insert rf (fst ` set ?md1) = fst ` set ?md1" by auto
    then show ?thesis
      unfolding md_ok_def e using d1 ent1 by auto
  qed
  with k2 show ?thesis by simp
qed

lemma add_func_step:
  assumes ok: "state_ok st" and g: "graph_ok st" and key: "key_ok f a"
    and free: "\<forall>j. slot st f a \<noteq> Some (Some j)"
  shows "\<exists>st'. add_func name f a (Some i) st = Inr st' \<and> state_ok st' \<and> graph_ok st'
           \<and> (\<forall>g b. slot st' g b =
                 (if g = f \<and> b = a then Some (Some i)
                  else if slot st f a = None \<and> required_by f a g b then own_slot st g b None
                  else slot st g b))"
proof (cases "needs_results f")
  case None
  obtain st' where r: "add_func name f a (Some i) st = Inr st'" and ok': "state_ok st'"
    and m: "metas st' = metas st" and d: "meta_deps st' = meta_deps st"
    and s: "\<And>g b. slot st' g b = (if g = f \<and> b = a then own_slot st f a (Some i) else slot st g b)"
    using add_leaf_ok [OF None ok key, of "Some i" name] free by auto
  have "graph_ok st'" using g m d by (simp add: graph_ok_def)
  moreover have "\<And>g b. \<not> required_by f a g b" using required_by_base [OF None] by simp
  ultimately show ?thesis
    using r ok' s by (auto simp: own_slot_def)
next
  case (Some reqs)
  obtain req where reqs: "reqs = [req]" and base: "needs_results (req_func req) = None"
    and rkey: "key_ok (req_func req) (eval_req_alpha (req_alpha req) a)"
    using single_requirement [OF Some] by blast
  have meta: "needs_results f = Some [req]" using Some reqs by simp
  let ?rf = "req_func req" and ?ra = "eval_req_alpha (req_alpha req) a"
  obtain st' where r: "add_func name f a (Some i) st = Inr st'" and ok': "state_ok st'"
    and keys: "fst ` set (metas st') = insert f (fst ` set (metas st))"
    and d: "meta_deps st' =
               (if map_of (metas st) f = None
                then dd_touch ?rf (dd_add f ?rf (meta_deps st)) else meta_deps st)"
    and s: "\<And>g b. slot st' g b =
                 (if g = f \<and> b = a then own_slot st f a (Some i)
                  else if slot st f a = None \<and> g = ?rf \<and> b = ?ra
                  then own_slot st ?rf ?ra None
                  else slot st g b)"
    using add_meta_ok [OF meta ok key _ base rkey, of "Some i" name] free by auto
  have mdok: "md_ok (meta_deps st)" and iff: "\<And>c. needs_results c \<noteq> None \<Longrightarrow>
            (c \<in> fst ` set (meta_deps st) \<longleftrightarrow> c \<in> fst ` set (metas st))"
    using g by (auto simp: graph_ok_def)
  have fm: "needs_results f \<noteq> None" using Some by simp
  have g': "graph_ok st'"
  proof (cases "map_of (metas st) f")
    case None
    then have d': "meta_deps st' = dd_touch ?rf (dd_add f ?rf (meta_deps st))"
      using d by simp
    have st: "md_ok (meta_deps st')
       \<and> fst ` set (meta_deps st') = insert ?rf (insert f (fst ` set (meta_deps st)))"
      using md_ok_step [OF mdok fm base] d' by simp
    show ?thesis
      unfolding graph_ok_def using st keys iff base by auto
  next
    case (Some info)
    then have "f \<in> fst ` set (metas st)"
      by (auto dest!: map_of_SomeD intro: rev_image_eqI)
    then have "fst ` set (metas st') = fst ` set (metas st)" using keys by auto
    moreover have "meta_deps st' = meta_deps st" using d Some by simp
    ultimately show ?thesis using g by (simp add: graph_ok_def)
  qed
  have "\<And>g b. slot st' g b =
                 (if g = f \<and> b = a then Some (Some i)
                  else if slot st f a = None \<and> required_by f a g b then own_slot st g b None
                  else slot st g b)"
    using s by (auto simp: required_by_single [OF meta] own_slot_def)
  then show ?thesis using r ok' g' by blast
qed

lemma index_of_notin: "x \<notin> set xs \<Longrightarrow> index_of xs x = None"
  by (simp add: index_of_def)

lemma check_spec_key_ok: "check_spec pf spec = Inr (n, f, a) \<Longrightarrow> key_ok f a"
  by (auto simp: check_spec_def key_ok_def split: prod.splits sum.splits option.splits if_splits)

lemma registered_init: "registered \<lparr>funcs = [], metas = [], meta_deps = []\<rparr> []"
  by (simp add: registered_def state_ok_def graph_ok_def md_ok_def slot_def get_dict_def
      slot_spec_def index_of_def split: option.splits)

lemma slot_spec_not_required_meta:
  assumes "needs_results f \<noteq> None" and "index_of ks (f, a) = None"
  shows "slot_spec ks f a = None"
proof -
  have "\<not> list_ex (\<lambda>fa. required_by (fst fa) (snd fa) f a) ks"
    using assms(1) required_by_is_base by (auto simp: list_ex_iff)
  then show ?thesis using assms(2) by (simp add: slot_spec_def)
qed

lemma register_step:
  assumes reg: "registered st ks" and key: "key_ok f a" and new: "(f, a) \<notin> set ks"
  shows "\<exists>st'. add_func name f a (Some (int (length ks))) st = Inr st'
           \<and> registered st' (ks @ [(f, a)])"
proof -
  have ok: "state_ok st" and g: "graph_ok st" and sl: "\<And>g b. slot st g b = slot_spec ks g b"
    using reg by (auto simp: registered_def)
  have iN: "index_of ks (f, a) = None" using new by (simp add: index_of_None)
  have free: "\<forall>j. slot st f a \<noteq> Some (Some j)"
    using sl [of f a] iN by (simp add: slot_spec_def)
  obtain st' where r: "add_func name f a (Some (int (length ks))) st = Inr st'"
    and ok': "state_ok st'" and g': "graph_ok st'"
    and s': "\<And>g b. slot st' g b =
                 (if g = f \<and> b = a then Some (Some (int (length ks)))
                  else if slot st f a = None \<and> required_by f a g b then own_slot st g b None
                  else slot st g b)"
    using add_func_step [OF ok g key free, of name "int (length ks)"] by blast
  have "slot st' g b = slot_spec (ks @ [(f, a)]) g b" for g b
  proof (cases "g = f \<and> b = a")
    case True
    then show ?thesis
      using s' [of g b] new by (simp add: slot_spec_def index_of_append)
  next
    case False
    have idx: "index_of (ks @ [(f, a)]) (g, b) = index_of ks (g, b)"
      using False by (auto simp: index_of_append index_of_notin)
    have ex: "list_ex (\<lambda>fa. required_by (fst fa) (snd fa) g b) (ks @ [(f, a)])
                \<longleftrightarrow> list_ex (\<lambda>fa. required_by (fst fa) (snd fa) g b) ks \<or> required_by f a g b"
      by (auto simp: list_ex_iff)
    show ?thesis
    proof (cases "required_by f a g b")
      case True
      then have "needs_results f \<noteq> None" using required_by_is_base by blast
      then have "slot st f a = None"
        using slot_spec_not_required_meta [OF _ iN] sl by simp
      then have "slot st' g b = own_slot st g b None"
        using s' [of g b] False True by simp
      then show ?thesis
        using sl [of g b] idx ex True
        by (auto simp: own_slot_def slot_spec_def split: option.splits)
    next
      case nr: False
      then have "slot st' g b = slot st g b" using s' [of g b] False by simp
      then show ?thesis
        using sl [of g b] idx ex nr by (simp add: slot_spec_def)
    qed
  qed
  then show ?thesis
    using r ok' g' by (auto simp: registered_def)
qed

lemma register_duplicate:
  assumes reg: "registered st ks" and key: "key_ok f a" and old: "(f, a) \<in> set ks"
  shows "add_func name f a (Some i) st = Inl (duplicate_error name f a)"
proof -
  obtain k where "index_of ks (f, a) = Some k" using index_of_in [OF old] by blast
  then have "slot st f a = Some (Some (int k))"
    using reg by (simp add: registered_def slot_spec_def)
  then show ?thesis
    using add_func_duplicate reg key by (simp add: registered_def)
qed

lemma add_specs_ok:
  assumes "map_err (check_spec pf) specs = Inr toks" and "registered st ks"
    and "distinct (ks @ map snd toks)"
  shows "\<exists>st'. add_specs pf (length ks) specs st = Inr st'
           \<and> registered st' (ks @ map snd toks)"
  using assms
proof (induction specs arbitrary: toks st ks)
  case Nil
  then show ?case by simp
next
  case (Cons spec specs)
  obtain t rest where t: "check_spec pf spec = Inr t"
    and rest: "map_err (check_spec pf) specs = Inr rest" and toks: "toks = t # rest"
    using Cons.prems(1) by (auto split: sum.splits)
  obtain n f a where tn: "t = (n, f, a)" by (cases t)
  have key: "key_ok f a" using check_spec_key_ok t tn by blast
  have new: "(f, a) \<notin> set ks" using Cons.prems(3) toks tn by auto
  obtain st1 where a1: "add_func n f a (Some (int (length ks))) st = Inr st1"
    and r1: "registered st1 (ks @ [(f, a)])"
    using register_step [OF Cons.prems(2) key new] by blast
  have d: "distinct ((ks @ [(f, a)]) @ map snd rest)"
    using Cons.prems(3) toks tn by simp
  obtain st' where "add_specs pf (length (ks @ [(f, a)])) specs st1 = Inr st'"
    and "registered st' ((ks @ [(f, a)]) @ map snd rest)"
    using Cons.IH [OF rest r1 d] by blast
  then show ?case
    using t tn a1 toks by (simp add: add_spec_def)
qed

lemma add_specs_duplicate:
  assumes "map_err (check_spec pf) specs = Inr toks" and "registered st ks"
    and "distinct ks" and "\<not> distinct (ks @ map snd toks)"
  shows "\<exists>n f a. (n, f, a) \<in> set toks
           \<and> add_specs pf (length ks) specs st = Inl (duplicate_error n f a)"
  using assms
proof (induction specs arbitrary: toks st ks)
  case Nil
  then show ?case by simp
next
  case (Cons spec specs)
  obtain t rest where t: "check_spec pf spec = Inr t"
    and rest: "map_err (check_spec pf) specs = Inr rest" and toks: "toks = t # rest"
    using Cons.prems(1) by (auto split: sum.splits)
  obtain n f a where tn: "t = (n, f, a)" by (cases t)
  have key: "key_ok f a" using check_spec_key_ok t tn by blast
  show ?case
  proof (cases "(f, a) \<in> set ks")
    case True
    have "add_func n f a (Some (int (length ks))) st = Inl (duplicate_error n f a)"
      using register_duplicate [OF Cons.prems(2) key True] .
    then show ?thesis
      using t tn toks by (auto simp: add_spec_def)
  next
    case False
    obtain st1 where a1: "add_func n f a (Some (int (length ks))) st = Inr st1"
      and r1: "registered st1 (ks @ [(f, a)])"
      using register_step [OF Cons.prems(2) key False] by blast
    have d: "distinct (ks @ [(f, a)])" using Cons.prems(3) False by simp
    have nd: "\<not> distinct ((ks @ [(f, a)]) @ map snd rest)"
      using Cons.prems(4) toks tn by simp
    obtain n' f' a' where "(n', f', a') \<in> set rest"
      and "add_specs pf (length (ks @ [(f, a)])) specs st1 = Inl (duplicate_error n' f' a')"
      using Cons.IH [OF rest r1 d nd] by blast
    then show ?thesis
      using t tn a1 toks by (auto simp: add_spec_def)
  qed
qed

lemma add_specs_invalid:
  assumes "spec \<in> set specs" and "check_spec pf spec = Inl e"
  shows "\<exists>e'. add_specs pf i specs st = Inl e'"
  using assms
proof (induction specs arbitrary: i st)
  case Nil
  then show ?case by simp
next
  case (Cons s specs)
  show ?case
  proof (cases "add_spec pf i s st")
    case (Inl e')
    then show ?thesis by simp
  next
    case (Inr st1)
    then have "s \<noteq> spec" using Cons.prems(2) by (auto simp: add_spec_def)
    then have "spec \<in> set specs" using Cons.prems(1) by simp
    then show ?thesis using Cons.IH Cons.prems(2) Inr by simp
  qed
qed

lemma add_specs_append:
  "add_specs pf i (xs @ ys) st =
     (case add_specs pf i xs st of
        Inl e \<Rightarrow> Inl e
      | Inr st' \<Rightarrow> add_specs pf (i + length xs) ys st')"
  by (induction xs arbitrary: i st) (auto split: sum.splits)

lemma number_pos_props:
  "number_pos c ps = (c', qs) \<Longrightarrow>
     length qs = length ps \<and> c' \<le> c
     \<and> (\<forall>i < length ps. (case ps ! i of Some p \<Rightarrow> qs ! i = p
                                    | None \<Rightarrow> c' < qs ! i \<and> qs ! i \<le> c))"
proof (induction c ps arbitrary: c' qs rule: number_pos.induct)
  case (1 c)
  then show ?case by simp
next
  case (2 c ps)
  obtain c1 qs1 where r: "number_pos (c - 1) ps = (c1, qs1)"
    by (cases "number_pos (c - 1) ps")
  have eq: "c' = c1" "qs = c # qs1" using "2.prems" r by simp_all
  have ih: "length qs1 = length ps \<and> c1 \<le> c - 1
     \<and> (\<forall>i < length ps. (case ps ! i of Some p \<Rightarrow> qs1 ! i = p
                                    | None \<Rightarrow> c1 < qs1 ! i \<and> qs1 ! i \<le> c - 1))"
    using "2.IH" [OF r] .
  show ?case
  proof (intro conjI allI impI)
    show "length qs = length (None # ps)" using ih eq by simp
    show "c' \<le> c" using ih eq by simp
    fix i assume "i < length (None # ps)"
    then show "case (None # ps) ! i of Some p \<Rightarrow> qs ! i = p
                 | None \<Rightarrow> c' < qs ! i \<and> qs ! i \<le> c"
      using ih eq by (cases i) (auto split: option.splits)
  qed
next
  case (3 c p ps)
  obtain c1 qs1 where r: "number_pos c ps = (c1, qs1)"
    by (cases "number_pos c ps")
  have eq: "c' = c1" "qs = p # qs1" using "3.prems" r by simp_all
  have ih: "length qs1 = length ps \<and> c1 \<le> c
     \<and> (\<forall>i < length ps. (case ps ! i of Some p \<Rightarrow> qs1 ! i = p
                                    | None \<Rightarrow> c1 < qs1 ! i \<and> qs1 ! i \<le> c))"
    using "3.IH" [OF r] .
  show ?case
  proof (intro conjI allI impI)
    show "length qs = length (Some p # ps)" using ih eq by simp
    show "c' \<le> c" using ih eq by simp
    fix i assume "i < length (Some p # ps)"
    then show "case (Some p # ps) ! i of Some p \<Rightarrow> qs ! i = p
                 | None \<Rightarrow> c' < qs ! i \<and> qs ! i \<le> c"
      using ih eq by (cases i) (auto split: option.splits)
  qed
qed

lemma numbered_mono: "numbered lo hi info info' \<Longrightarrow> lo' \<le> lo \<Longrightarrow> hi \<le> hi' \<Longrightarrow> numbered lo' hi' info info'"
  by (fastforce simp: numbered_def split: option.splits)

lemma number_infos_props:
  "number_infos c xs = (c', ys) \<Longrightarrow>
     c' \<le> c \<and> map fst ys = map fst xs
     \<and> (\<forall>f info. map_of xs f = Some info \<longrightarrow>
           (\<exists>info'. map_of ys f = Some info' \<and> numbered c' c info info'))"
proof (induction xs arbitrary: c c' ys)
  case Nil
  then show ?case by simp
next
  case (Cons x xs)
  obtain g ginfo where x: "x = (g, ginfo)" by (cases x)
  obtain c1 qs where p: "number_pos c (pos ginfo) = (c1, qs)"
    by (cases "number_pos c (pos ginfo)")
  obtain c2 rest where r: "number_infos c1 xs = (c2, rest)"
    by (cases "number_infos c1 xs")
  have eq: "c' = c2" "ys = (g, \<lparr>alphas = alphas ginfo, pos = qs\<rparr>) # rest"
    using Cons.prems x p r by simp_all
  have pp: "length qs = length (pos ginfo) \<and> c1 \<le> c
     \<and> (\<forall>i < length (pos ginfo). (case pos ginfo ! i of Some p \<Rightarrow> qs ! i = p
                                    | None \<Rightarrow> c1 < qs ! i \<and> qs ! i \<le> c))"
    using number_pos_props [OF p] .
  have ih: "c2 \<le> c1 \<and> map fst rest = map fst xs
     \<and> (\<forall>f info. map_of xs f = Some info \<longrightarrow>
           (\<exists>info'. map_of rest f = Some info' \<and> numbered c2 c1 info info'))"
    using Cons.IH [OF r] .
  have head: "numbered c' c ginfo \<lparr>alphas = alphas ginfo, pos = qs\<rparr>"
    using pp ih eq by (fastforce simp: numbered_def split: option.splits)
  show ?case
  proof (intro conjI allI impI)
    show "c' \<le> c" using pp ih eq by simp
    show "map fst ys = map fst (x # xs)" using ih eq x by simp
    fix f info assume m: "map_of (x # xs) f = Some info"
    show "\<exists>info'. map_of ys f = Some info' \<and> numbered c' c info info'"
    proof (cases "f = g")
      case True
      then show ?thesis using m x eq head by simp
    next
      case False
      then have "map_of xs f = Some info" using m x by simp
      then obtain info' where "map_of rest f = Some info'" "numbered c2 c1 info info'"
        using ih by blast
      then show ?thesis
        using False eq pp numbered_mono [of c2 c1 info info' c' c] by auto
    qed
  qed
qed

lemma number_infos_absent:
  "number_infos c xs = (c', ys) \<Longrightarrow> map_of xs f = None \<Longrightarrow> map_of ys f = None"
proof -
  assume n: "number_infos c xs = (c', ys)" and m: "map_of xs f = None"
  have "map fst ys = map fst xs" using number_infos_props [OF n] by simp
  then have "fst ` set ys = fst ` set xs" by (metis set_map)
  then show ?thesis using m by (simp add: map_of_eq_None_iff)
qed

lemma info_pos_numbered:
  assumes "numbered lo hi info info'"
  shows "(case info_pos info a of
            None \<Rightarrow> info_pos info' a = None
          | Some (Some p) \<Rightarrow> info_pos info' a = Some p
          | Some None \<Rightarrow> (\<exists>q. info_pos info' a = Some q \<and> lo < q \<and> q \<le> hi))"
proof -
  have al: "alphas info' = alphas info" and len: "length (pos info') = length (pos info)"
    and nth: "\<And>i. i < length (pos info) \<Longrightarrow>
            (case pos info ! i of Some p \<Rightarrow> pos info' ! i = p
                                | None \<Rightarrow> lo < pos info' ! i \<and> pos info' ! i \<le> hi)"
    using assms by (simp_all add: numbered_def)
  show ?thesis
  proof (cases "alphas info")
    case None
    show ?thesis
    proof (cases "length (pos info) = 1")
      case True
      then obtain x where x: "pos info = [x]" by (cases "pos info") auto
      obtain y where y: "pos info' = [y]" using len True by (cases "pos info'") auto
      show ?thesis
        using nth [of 0] x y None al by (auto simp: info_pos_def split: option.splits)
    next
      case False
      then have "info_pos info a = None"
        using None by (cases "pos info") (auto simp: info_pos_def split: list.splits)
      moreover have "info_pos info' a = None"
        using None al len False
        by (cases "pos info'") (auto simp: info_pos_def split: list.splits)
      ultimately show ?thesis by simp
    qed
  next
    case (Some als)
    show ?thesis
    proof (cases "index_of als a")
      case None
      then show ?thesis using Some al by (simp add: info_pos_def)
    next
      case (Some idx)
      show ?thesis
      proof (cases "idx < length (pos info)")
        case True
        then show ?thesis
          using nth [OF True] \<open>alphas info = Some als\<close> Some al len
          by (auto simp: info_pos_def split: option.splits)
      next
        case False
        then show ?thesis
          using \<open>alphas info = Some als\<close> Some al len by (simp add: info_pos_def)
      qed
    qed
  qed
qed

lemma numbered_shape: "numbered lo hi info info' \<Longrightarrow> ok_info f info \<Longrightarrow> shape_ok f info'"
  by (auto simp: numbered_def ok_info_def shape_ok_def split: option.splits)

lemma find_pos_info_pos:
  "alphas ri = Some als \<Longrightarrow> info_pos ri a = Some p \<Longrightarrow> find_pos ri a = Inr p"
  by (auto simp: info_pos_def find_pos_def split: option.splits if_splits)

lemma find_all_pos_ok:
  assumes "alphas ri = Some als" and "\<And>a. a \<in> set mals \<Longrightarrow> info_pos ri a \<noteq> None"
  shows "\<exists>ps. find_all_pos ri mals = Inr ps"
  using assms(2)
proof (induction mals)
  case Nil
  show ?case by simp
next
  case (Cons a mals)
  obtain p where "info_pos ri a = Some p" using Cons.prems [of a] by auto
  then have "find_pos ri a = Inr p" using assms(1) by (rule find_pos_info_pos [rotated])
  moreover obtain ps where "find_all_pos ri mals = Inr ps" using Cons by auto
  ultimately show ?case by simp
qed

lemma nslot_base:
  assumes "needs_results g = None" and "nslot fs ms g b \<noteq> None"
  shows "\<exists>ri. map_of fs g = Some ri \<and> info_pos ri b \<noteq> None"
  using assms by (auto simp: nslot_def split: if_splits option.splits)

lemma shape_alpha_slot:
  assumes "shape_ok f info" and "needs_alpha f" and "alphas info = Some als" and "a \<in> set als"
  shows "info_pos info a \<noteq> None"
proof -
  obtain idx where i: "index_of als a = Some idx" using assms(4) index_of_in by fastforce
  have "idx < length als" using index_of_Some [OF i] by simp
  moreover have "length (pos info) = length als"
    using assms(1,2,3) by (simp add: shape_ok_def)
  ultimately show ?thesis
    using assms(3) i by (simp add: info_pos_def)
qed

lemma fill_one_ok:
  assumes closure: "\<And>a g b. nslot fs ms f a \<noteq> None \<Longrightarrow> required_by f a g b \<Longrightarrow>
                      nslot fs ms g b \<noteq> None"
    and entry: "map_of ms f = Some info" and meta: "needs_results f = Some reqs"
    and shape: "shape_ok f info"
    and bases: "\<And>g ri. needs_results g = None \<Longrightarrow> map_of fs g = Some ri \<Longrightarrow> shape_ok g ri"
  shows "\<exists>ds. fill_one fs ms (f, info)
            = Inr (f, \<lparr>alphas = alphas info, pos = pos info, deps = ds\<rparr>)"
proof -
  obtain req where reqs: "reqs = [req]" and rbase: "needs_results (req_func req) = None"
    using single_requirement [OF meta] by blast
  let ?g = "req_func req"
  have own: "nslot fs ms f a = (if key_ok f a then info_pos info a else None)" for a
    using entry meta by (simp add: nslot_def)
  have need: "nslot fs ms ?g (eval_req_alpha (req_alpha req) a) \<noteq> None"
    if "key_ok f a" and "info_pos info a \<noteq> None" for a
  proof -
    have "required_by f a ?g (eval_req_alpha (req_alpha req) a)"
      using meta reqs by (simp add: required_by_def)
    moreover have "nslot fs ms f a \<noteq> None" using that own by simp
    ultimately show ?thesis using closure by blast
  qed
  have rd: "\<exists>ds. req_deps fs ms (alphas info) req = Inr ds"
  proof (cases "needs_alpha f")
    case False
    have al: "alphas info = None" and len: "length (pos info) = 1"
      using shape False by (simp_all add: shape_ok_def)
    have k: "key_ok f None" by (simp add: key_ok_def)
    have "info_pos info None \<noteq> None"
      using info_pos_plain [OF al len] by simp
    then have n: "nslot fs ms ?g (eval_req_alpha (req_alpha req) None) \<noteq> None"
      using need [OF k] by simp
    then obtain ri where ri: "map_of fs ?g = Some ri"
      and ip: "info_pos ri (eval_req_alpha (req_alpha req) None) \<noteq> None"
      using nslot_base [OF rbase] by blast
    have sh: "shape_ok ?g ri" using bases [OF rbase ri] .
    have not_id: "req_alpha req \<noteq> Callable_identity"
      using meta reqs False by (cases f) auto
    show ?thesis
    proof (cases "req_alpha req")
      case NoAlpha
      have "\<not> needs_alpha ?g" using meta reqs NoAlpha by (cases f) auto
      then have "length (pos ri) = 1" using sh by (simp add: shape_ok_def)
      then obtain p where "pos ri = [p]" by (cases "pos ri") auto
      then show ?thesis
        using NoAlpha ri rbase by (simp add: req_deps_def req_info_def)
    next
      case (Scalar x)
      have "needs_alpha ?g" using meta reqs Scalar by (cases f) auto
      then obtain als where als: "alphas ri = Some als"
        using sh by (auto simp: shape_ok_def split: option.splits)
      obtain p where "info_pos ri (Some x) = Some p"
        using ip Scalar by (auto simp: eval_req_alpha_def)
      then have "find_pos ri (Some x) = Inr p"
        using als by (rule find_pos_info_pos [rotated])
      then show ?thesis
        using Scalar ri rbase by (simp add: req_deps_def req_info_def)
    next
      case Callable_identity
      with not_id show ?thesis by simp
    qed
  next
    case True
    obtain mals where mals: "alphas info = Some mals" and len: "length (pos info) = length mals"
      and ne: "mals \<noteq> []"
      using shape True by (auto simp: shape_ok_def split: option.splits)
    have id: "req_alpha req = Callable_identity" and ga: "needs_alpha ?g"
      using meta reqs True by (cases f; auto)+
    have k: "key_ok f a" for a using True by (simp add: key_ok_def)
    have each: "nslot fs ms ?g a \<noteq> None" if "a \<in> set mals" for a
      using need [OF k, of a] shape_alpha_slot [OF shape True mals that] id
      by (simp add: eval_req_alpha_def)
    show ?thesis
    proof (cases mals)
      case Nil
      then show ?thesis using ne by simp
    next
      case (Cons a0 rest)
      then have "a0 \<in> set mals" by simp
      then obtain ri where ri: "map_of fs ?g = Some ri"
        using nslot_base [OF rbase each] by blast
      have sh: "shape_ok ?g ri" using bases [OF rbase ri] .
      then obtain als where als: "alphas ri = Some als"
        using ga by (auto simp: shape_ok_def split: option.splits)
      have "info_pos ri a \<noteq> None" if "a \<in> set mals" for a
        using nslot_base [OF rbase each [OF that]] ri by auto
      then obtain ps where "find_all_pos ri mals = Inr ps"
        using find_all_pos_ok [OF als] by blast
      then show ?thesis
        using id mals ri rbase by (simp add: req_deps_def req_info_def)
    qed
  qed
  then obtain ds where "req_deps fs ms (alphas info) req = Inr ds" by blast
  then show ?thesis
    using meta reqs by (simp add: fill_one_def)
qed

lemma fill_deps_ok:
  assumes "\<And>f info. (f, info) \<in> set rest \<Longrightarrow>
             \<exists>ds. fill_one fs ms (f, info)
                     = Inr (f, \<lparr>alphas = alphas info, pos = pos info, deps = ds\<rparr>)"
  shows "\<exists>out. fill_deps fs ms rest = Inr out \<and> map fst out = map fst rest
           \<and> (\<forall>f info. map_of rest f = Some info \<longrightarrow>
                 (\<exists>ds. map_of out f = Some \<lparr>alphas = alphas info, pos = pos info, deps = ds\<rparr>))"
  using assms
proof (induction rest)
  case Nil
  show ?case by simp
next
  case (Cons x rest)
  obtain g ginfo where x: "x = (g, ginfo)" by (cases x)
  obtain ds where one: "fill_one fs ms (g, ginfo)
      = Inr (g, \<lparr>alphas = alphas ginfo, pos = pos ginfo, deps = ds\<rparr>)"
    using Cons.prems [of g ginfo] x by auto
  obtain out where out: "fill_deps fs ms rest = Inr out" and keys: "map fst out = map fst rest"
    and m: "\<forall>f info. map_of rest f = Some info \<longrightarrow>
                 (\<exists>ds. map_of out f = Some \<lparr>alphas = alphas info, pos = pos info, deps = ds\<rparr>)"
    using Cons.IH Cons.prems by auto
  show ?case
    using x one out keys m by auto
qed

lemma set_fold_set_add: "set (fold set_add ns available) = set available \<union> set ns"
proof (induction ns arbitrary: available)
  case Nil
  show ?case by simp
next
  case (Cons n ns)
  have "set (set_add n available) = insert n (set available)"
    by (auto simp: set_add_def)
  with Cons [of "set_add n available"] show ?case by auto
qed

lemma move_available_sets:
  assumes "move_available available ds = (available', ds')"
  shows "set available' = set available \<union> {c. (c, []) \<in> set ds}"
    and "set ds' = {(c, ps). (c, ps) \<in> set ds \<and> (c, []) \<notin> set ds}"
proof -
  let ?del = "map fst (filter (\<lambda>(n, parents). parents = []) ds)"
  have d: "set ?del = {c. (c, []) \<in> set ds}"
    by (auto simp: image_iff)
  have a: "available' = fold set_add ?del available"
    and e: "ds' = filter (\<lambda>(n, parents). n \<notin> set ?del) ds"
    using assms by (simp_all add: move_available_def Let_def)
  show "set available' = set available \<union> {c. (c, []) \<in> set ds}"
    using a d by (simp add: set_fold_set_add)
  show "set ds' = {(c, ps). (c, ps) \<in> set ds \<and> (c, []) \<notin> set ds}"
    unfolding e using d by auto
qed

lemma discard_all_mem:
  "(c, ps') \<in> set (discard_all n ds) \<longleftrightarrow> (\<exists>ps. (c, ps) \<in> set ds \<and> ps' = removeAll n ps)"
  by (auto simp: discard_all_def)

lemma move_available_keys:
  assumes "move_available available ds = (available', ds')"
  shows "set available' \<union> fst ` set ds' = set available \<union> fst ` set ds"
proof -
  have a: "set available' = set available \<union> {c. (c, []) \<in> set ds}"
    and d: "set ds' = {(c, ps). (c, ps) \<in> set ds \<and> (c, []) \<notin> set ds}"
    using move_available_sets [OF assms] by simp_all
  show ?thesis
  proof (intro equalityI subsetI)
    fix x assume "x \<in> set available' \<union> fst ` set ds'"
    then consider "x \<in> set available" | "(x, []) \<in> set ds"
      | ps where "(x, ps) \<in> set ds'"
      using a by auto
    then show "x \<in> set available \<union> fst ` set ds"
    proof cases
      case 1
      then show ?thesis by simp
    next
      case 2
      then have "x \<in> fst ` set ds" by (rule rev_image_eqI) simp
      then show ?thesis by simp
    next
      case 3
      then have "(x, ps) \<in> set ds" using d by auto
      then have "x \<in> fst ` set ds" by (rule rev_image_eqI) simp
      then show ?thesis by simp
    qed
  next
    fix x assume x: "x \<in> set available \<union> fst ` set ds"
    show "x \<in> set available' \<union> fst ` set ds'"
    proof (cases "x \<in> set available \<or> (x, []) \<in> set ds")
      case True
      then show ?thesis using a by auto
    next
      case False
      then obtain ps where "(x, ps) \<in> set ds" using x by auto
      then have "(x, ps) \<in> set ds'" using d False by auto
      then have "x \<in> fst ` set ds'" by (rule rev_image_eqI) simp
      then show ?thesis by simp
    qed
  qed
qed

lemma loop_inv_step:
  assumes inv: "loop_inv N order available ds" and ne: "available \<noteq> []"
    and p: "set_pop pick available = (n, available1)"
    and m: "move_available available1 (discard_all n ds) = (available2, ds2)"
  shows "loop_inv N (order @ [n]) available2 ds2"
proof -
  have n: "n \<in> set available" and a1: "set available1 = set available - {n}"
    using ne p by (auto simp: set_pop_def Let_def)
  have a2: "set available2 = set available1 \<union> {c. (c, []) \<in> set (discard_all n ds)}"
    and d2: "set ds2 = {(c, ps). (c, ps) \<in> set (discard_all n ds)
                         \<and> (c, []) \<notin> set (discard_all n ds)}"
    using move_available_sets [OF m] by simp_all
  have par: "\<And>c ps. (c, ps) \<in> set ds \<Longrightarrow> ps \<noteq> [] \<and> set ps \<subseteq> set available"
    using inv by (simp add: loop_inv_def)
  have all: "set order \<union> set available \<union> fst ` set ds = N"
    using inv by (simp add: loop_inv_def)
  have one: "ps' \<noteq> [] \<and> set ps' \<subseteq> set available2" if mem: "(c, ps') \<in> set ds2" for c ps'
  proof -
    have in_d: "(c, ps') \<in> set (discard_all n ds)"
      and keep: "(c, []) \<notin> set (discard_all n ds)"
      using mem d2 by auto
    obtain ps where ps: "(c, ps) \<in> set ds" and ps': "ps' = removeAll n ps"
      using in_d discard_all_mem [of c ps' n ds] by blast
    have "ps' \<noteq> []"
      using in_d keep by auto
    moreover have "set ps' \<subseteq> set available1"
      using par [OF ps] ps' a1 by auto
    ultimately show ?thesis using a2 by auto
  qed
  have keys: "fst ` set (discard_all n ds) = fst ` set ds"
    by (simp add: discard_all_def image_image case_prod_beta)
  have "set available2 \<union> fst ` set ds2 = set available1 \<union> fst ` set ds"
    using move_available_keys [OF m] keys by simp
  then have "set (order @ [n]) \<union> set available2 \<union> fst ` set ds2
          = set order \<union> set available \<union> fst ` set ds"
    using a1 n by auto
  then have "set (order @ [n]) \<union> set available2 \<union> fst ` set ds2 = N"
    using all by simp
  then show ?thesis
    unfolding loop_inv_def using one by blast
qed

lemma sort_loop_complete:
  "loop_inv N order available ds \<Longrightarrow> sort_loop pick order available ds = (order', available', ds')
     \<Longrightarrow> set order' = N"
proof (induction pick order available ds rule: sort_loop.induct)
  case (1 pick order available ds)
  show ?case
  proof (cases "available = []")
    case True
    then have "order' = order" using "1.prems"(2) by (simp add: sort_loop.simps)
    moreover have "ds = []"
    proof (rule ccontr)
      assume "ds \<noteq> []"
      then obtain c ps where "(c, ps) \<in> set ds" by (cases ds) auto
      then have "ps \<noteq> [] \<and> set ps \<subseteq> set available"
        using "1.prems"(1) by (simp add: loop_inv_def)
      then show False using True by auto
    qed
    ultimately show ?thesis
      using "1.prems"(1) True by (simp add: loop_inv_def)
  next
    case False
    obtain n available1 where p: "set_pop pick available = (n, available1)"
      by (cases "set_pop pick available")
    obtain available2 deps2
      where m: "move_available available1 (discard_all n ds) = (available2, deps2)"
      by (cases "move_available available1 (discard_all n ds)")
    have run: "sort_loop pick (order @ [n]) available2 deps2 = (order', available', ds')"
      using "1.prems"(2) False p m by (simp add: sort_loop.simps [of pick order available ds])
    have inv: "loop_inv N (order @ [n]) available2 deps2"
      using loop_inv_step [OF "1.prems"(1) False p m] .
    show ?thesis
      using "1.IH" [OF False p [symmetric] m [symmetric] inv run] .
  qed
qed

lemma topological_sort_complete:
  assumes roots: "\<And>c ps q. (c, ps) \<in> set ds \<Longrightarrow> q \<in> set ps \<Longrightarrow> (q, []) \<in> set ds"
  shows "\<exists>order. topological_sort pick ds = Inr order \<and> set order = fst ` set ds"
proof -
  obtain available0 deps0 where m: "move_available [] ds = (available0, deps0)"
    by (cases "move_available [] ds")
  obtain order available deps1
    where s: "sort_loop pick [] available0 deps0 = (order, available, deps1)"
    by (cases "sort_loop pick [] available0 deps0")
  have av: "available = []"
    using sort_loop_available_empty [OF s] .
  have a0: "set available0 = {c. (c, []) \<in> set ds}"
    and d0: "set deps0 = {(c, ps). (c, ps) \<in> set ds \<and> (c, []) \<notin> set ds}"
    using move_available_sets [OF m] by simp_all
  have k: "set available0 \<union> fst ` set deps0 = fst ` set ds"
    using move_available_keys [OF m] by simp
  have one: "ps \<noteq> [] \<and> set ps \<subseteq> set available0" if mem: "(c, ps) \<in> set deps0" for c ps
  proof -
    have in_d: "(c, ps) \<in> set ds" and keep: "(c, []) \<notin> set ds"
      using mem d0 by auto
    have "ps \<noteq> []" using in_d keep by auto
    moreover have "set ps \<subseteq> set available0"
      using roots [OF in_d] a0 by auto
    ultimately show ?thesis by simp
  qed
  have "loop_inv (fst ` set ds) [] available0 deps0"
    unfolding loop_inv_def using one k by auto
  then have "set order = fst ` set ds"
    using s by (rule sort_loop_complete)
  then show ?thesis
    by (simp add: topological_sort_def m s av)
qed

lemma order_metas_map_of:
  "order_metas ms order acc = Inr out \<Longrightarrow>
     map_of out f = (if f \<in> set order \<and> needs_results f \<noteq> None then map_of ms f
                     else map_of acc f)"
proof (induction ms order acc rule: order_metas.induct)
  case (1 ms acc)
  then show ?case by simp
next
  case (2 ms g rest acc)
  show ?case
  proof (cases "needs_results g = None")
    case True
    then have "order_metas ms rest acc = Inr out" using "2.prems" by simp
    from "2.IH"(1) [OF True this] True show ?thesis by auto
  next
    case False
    then obtain i where i: "map_of ms g = Some i"
      and o: "order_metas ms rest (AList.update g i acc) = Inr out"
      using "2.prems" by (auto split: option.splits)
    from "2.IH"(2) [OF False i o] i False show ?thesis
      by (auto simp: map_of_update)
  qed
qed

lemma order_metas_ok:
  "(\<And>f. f \<in> set order \<Longrightarrow> needs_results f \<noteq> None \<Longrightarrow> map_of ms f \<noteq> None) \<Longrightarrow>
     \<exists>out. order_metas ms order acc = Inr out"
proof (induction ms order acc rule: order_metas.induct)
  case (1 ms acc)
  show ?case by simp
next
  case (2 ms g rest acc)
  show ?case
  proof (cases "needs_results g = None")
    case True
    then show ?thesis using "2.IH"(1) [OF True] "2.prems" by simp
  next
    case False
    then obtain i where i: "map_of ms g = Some i"
      using "2.prems" [of g] by auto
    have "\<exists>out. order_metas ms rest (AList.update g i acc) = Inr out"
      using "2.IH"(2) [OF False i] "2.prems" by simp
    then show ?thesis
      using False i by auto
  qed
qed

lemma md_ok_roots:
  assumes "md_ok md" and "(c, ps) \<in> set md" and "q \<in> set ps"
  shows "(q, []) \<in> set md"
proof -
  have q: "needs_results q = None \<and> q \<in> fst ` set md"
    using assms by (auto simp: md_ok_def)
  then obtain ps' where m: "(q, ps') \<in> set md" by auto
  then have "ps' = []" using assms(1) q by (auto simp: md_ok_def)
  with m show ?thesis by simp
qed

lemma info_pos_more [simp]:
  "info_pos \<lparr>alphas = al, pos = ps, deps = ds\<rparr> a = info_pos \<lparr>alphas = al, pos = ps\<rparr> a"
  by (simp add: info_pos_def cong: option.case_cong list.case_cong if_cong)

lemma info_pos_eta: "info_pos \<lparr>alphas = alphas info, pos = pos info\<rparr> a = info_pos info a"
  by (simp add: info_pos_def cong: option.case_cong list.case_cong if_cong)

lemma nslot_of_slot:
  assumes ok: "state_ok st"
    and nf: "number_infos c0 (funcs st) = (c1, fs)"
    and nm: "number_infos c1 (metas st) = (c2, ms)"
  shows "(case slot st g b of
            None \<Rightarrow> nslot fs ms g b = None
          | Some (Some p) \<Rightarrow> nslot fs ms g b = Some p
          | Some None \<Rightarrow> (\<exists>q. nslot fs ms g b = Some q \<and> c2 < q \<and> q \<le> c0))"
proof (cases "key_ok g b")
  case False
  then show ?thesis by (simp add: slot_def nslot_def)
next
  case True
  have pf: "c1 \<le> c0" and pm: "c2 \<le> c1"
    using number_infos_props [OF nf] number_infos_props [OF nm] by simp_all
  let ?src = "get_dict st g"
  let ?dst = "case needs_results g of None \<Rightarrow> fs | Some _ \<Rightarrow> ms"
  show ?thesis
  proof (cases "map_of ?src g")
    case None
    then have "map_of ?dst g = None"
      using number_infos_absent [OF nf, of g] number_infos_absent [OF nm, of g]
      by (auto simp: get_dict_def split: option.splits)
    then show ?thesis using None True by (simp add: slot_def nslot_def)
  next
    case (Some info)
    have "\<exists>info'. map_of ?dst g = Some info' \<and> numbered c2 c0 info info'"
    proof (cases "needs_results g")
      case None
      then have "map_of (funcs st) g = Some info" using Some by (simp add: get_dict_def)
      then obtain info' where "map_of fs g = Some info'" "numbered c1 c0 info info'"
        using number_infos_props [OF nf] by blast
      then show ?thesis
        using None pm numbered_mono [of c1 c0 info info' c2 c0] by auto
    next
      case (Some reqs)
      then have "map_of (metas st) g = Some info"
        using \<open>map_of ?src g = Some info\<close> by (simp add: get_dict_def)
      then obtain info' where "map_of ms g = Some info'" "numbered c2 c1 info info'"
        using number_infos_props [OF nm] by blast
      then show ?thesis
        using Some pf numbered_mono [of c2 c1 info info' c2 c0] by auto
    qed
    then obtain info' where d: "map_of ?dst g = Some info'" and n: "numbered c2 c0 info info'"
      by blast
    have s: "slot st g b = info_pos info b" using Some True by (simp add: slot_def)
    have t: "nslot fs ms g b = info_pos info' b" using d True by (simp add: nslot_def)
    show ?thesis
      using info_pos_numbered [OF n, of b] s t by (simp split: option.splits)
  qed
qed

lemma numbered_entries:
  assumes ok: "state_ok st"
    and nf: "number_infos c0 (funcs st) = (c1, fs)"
    and nm: "number_infos c1 (metas st) = (c2, ms)"
  shows "\<And>g ri. needs_results g = None \<Longrightarrow> map_of fs g = Some ri \<Longrightarrow> shape_ok g ri"
    and "\<And>f info. (f, info) \<in> set ms \<Longrightarrow>
           map_of ms f = Some info \<and> needs_results f \<noteq> None \<and> shape_ok f info"
    and "fst ` set ms = fst ` set (metas st)"
proof -
  have kf: "map fst fs = map fst (funcs st)" and km: "map fst ms = map fst (metas st)"
    using number_infos_props [OF nf] number_infos_props [OF nm] by simp_all
  have df: "distinct (map fst (funcs st))" and dm: "distinct (map fst (metas st))"
    using ok by (simp_all add: state_ok_def)
  show "fst ` set ms = fst ` set (metas st)"
    using km by (metis set_map)
  show "shape_ok g ri" if b: "needs_results g = None" and m: "map_of fs g = Some ri" for g ri
  proof -
    have "g \<in> fst ` set fs" using m by (metis map_of_eq_None_iff option.distinct(1))
    then have "g \<in> fst ` set (funcs st)" using kf by (metis set_map)
    then obtain info where i: "map_of (funcs st) g = Some info"
      by (metis map_of_eq_None_iff not_Some_eq)
    then obtain info' where "map_of fs g = Some info'" and n: "numbered c1 c0 info info'"
      using number_infos_props [OF nf] by blast
    then have e: "info' = ri" using m by simp
    have "(g, info) \<in> set (funcs st)" using i by (rule map_of_SomeD)
    then have "ok_info g info" using ok by (auto simp: state_ok_def)
    then show ?thesis using numbered_shape [OF n] e by simp
  qed
  show "map_of ms f = Some info \<and> needs_results f \<noteq> None \<and> shape_ok f info"
    if mem: "(f, info) \<in> set ms" for f info
  proof -
    have dms: "distinct (map fst ms)" using km dm by simp
    then have m: "map_of ms f = Some info" using mem by simp
    have "f \<in> fst ` set (metas st)"
      using mem km by (metis fst_conv image_eqI set_map)
    then obtain info0 where i: "map_of (metas st) f = Some info0"
      by (metis map_of_eq_None_iff not_Some_eq)
    then obtain info' where "map_of ms f = Some info'" and n: "numbered c2 c1 info0 info'"
      using number_infos_props [OF nm] by blast
    then have e: "info' = info" using m by simp
    have "(f, info0) \<in> set (metas st)" using i by (rule map_of_SomeD)
    then have "ok_info f info0" and "needs_results f \<noteq> None"
      using ok by (auto simp: state_ok_def)
    then show ?thesis using numbered_shape [OF n] e m by simp
  qed
qed

lemma slot_spec_closed:
  assumes "slot_spec ks f a \<noteq> None" and "required_by f a g b"
  shows "slot_spec ks g b \<noteq> None"
proof -
  have meta: "needs_results f \<noteq> None"
    using required_by_is_base [OF assms(2)] by simp
  have "index_of ks (f, a) \<noteq> None"
    using slot_spec_not_required_meta [OF meta, of ks a] assms(1) by auto
  then have "(f, a) \<in> set ks" by (simp add: index_of_None)
  then have "list_ex (\<lambda>fa. required_by (fst fa) (snd fa) g b) ks"
    using assms(2) by (force simp: list_ex_iff)
  then show ?thesis by (simp add: slot_spec_def split: option.splits)
qed

lemma parse_specs_registered:
  assumes run: "add_specs pf 0 specs \<lparr>funcs = [], metas = [], meta_deps = []\<rparr> = Inr st"
    and reg: "registered st ks"
  shows "\<exists>fs ms h. parse_specs pf pick specs kk = Inr (fs, ms, h) \<and> 0 \<le> h
      \<and> (\<forall>g b. (case slot_spec ks g b of
                  None \<Rightarrow> plan_pos (fs, ms, h) g b = None
                | Some (Some p) \<Rightarrow> plan_pos (fs, ms, h) g b = Some p
                | Some None \<Rightarrow> (\<exists>q. plan_pos (fs, ms, h) g b = Some q \<and> - h \<le> q \<and> q < 0)))"
proof -
  have ok: "state_ok st" and gr: "graph_ok st" and sl: "\<And>g b. slot st g b = slot_spec ks g b"
    using reg by (auto simp: registered_def)
  obtain c1 fs where nf: "number_infos (- 1) (funcs st) = (c1, fs)"
    by (cases "number_infos (- 1) (funcs st)")
  obtain c2 ms where nm: "number_infos c1 (metas st) = (c2, ms)"
    by (cases "number_infos c1 (metas st)")
  have c: "c2 \<le> c1" "c1 \<le> - 1"
    using number_infos_props [OF nf] number_infos_props [OF nm] by simp_all
  note ns = nslot_of_slot [OF ok nf nm]
  have ns_iff: "nslot fs ms g b \<noteq> None \<longleftrightarrow> slot_spec ks g b \<noteq> None" for g b
    using ns [of g b] sl [of g b] by (auto split: option.splits)
  note ent = numbered_entries [OF ok nf nm]
  have one: "\<exists>ds. fill_one fs ms (f, info)
                  = Inr (f, \<lparr>alphas = alphas info, pos = pos info, deps = ds\<rparr>)"
    if mem: "(f, info) \<in> set ms" for f info
  proof -
    have m: "map_of ms f = Some info" and meta: "needs_results f \<noteq> None"
      and sh: "shape_ok f info"
      using ent(2) [OF mem] by simp_all
    obtain reqs where reqs: "needs_results f = Some reqs" using meta by auto
    have cl: "nslot fs ms g b \<noteq> None"
      if "nslot fs ms f a \<noteq> None" and "required_by f a g b" for a g b
      using that ns_iff slot_spec_closed by blast
    show ?thesis
    proof (rule fill_one_ok [OF _ m reqs sh])
      fix a g b assume "nslot fs ms f a \<noteq> None" and "required_by f a g b"
      then show "nslot fs ms g b \<noteq> None" by (rule cl)
    next
      fix g ri assume "needs_results g = None" and "map_of fs g = Some ri"
      then show "shape_ok g ri" by (rule ent(1))
    qed
  qed
  obtain ms' where fd: "fill_deps fs ms ms = Inr ms'" and keys': "map fst ms' = map fst ms"
    and m': "\<And>f info. map_of ms f = Some info \<Longrightarrow>
                 \<exists>ds. map_of ms' f = Some \<lparr>alphas = alphas info, pos = pos info, deps = ds\<rparr>"
    using fill_deps_ok [of ms fs ms, OF one] by blast
  have k': "fst ` set ms' = fst ` set (metas st)"
    using keys' ent(3) by (metis set_map)
  have md: "md_ok (meta_deps st)"
    and mk: "\<And>c. needs_results c \<noteq> None \<Longrightarrow>
               (c \<in> fst ` set (meta_deps st) \<longleftrightarrow> c \<in> fst ` set (metas st))"
    using gr by (auto simp: graph_ok_def)
  obtain order where ts: "topological_sort pick (meta_deps st) = Inr order"
    and so: "set order = fst ` set (meta_deps st)"
    using topological_sort_complete [of "meta_deps st" pick] md_ok_roots [OF md] by blast
  have present: "map_of ms' f \<noteq> None" if "f \<in> set order" and "needs_results f \<noteq> None" for f
  proof -
    have "f \<in> fst ` set ms'" using that so mk k' by simp
    then show ?thesis by (simp add: map_of_eq_None_iff)
  qed
  obtain mo where om: "order_metas ms' order [] = Inr mo"
    using order_metas_ok [of order ms' "[]"] present by blast
  have mo: "map_of mo f = (if f \<in> set order \<and> needs_results f \<noteq> None then map_of ms' f else None)"
    for f
    using order_metas_map_of [OF om, of f] by auto
  let ?h = "- c2 - 1"
  have p: "parse_specs pf pick specs kk = Inr (fs, mo, ?h)"
    by (simp add: parse_specs_def run nf nm fd ts om)
  have pp: "plan_pos (fs, mo, ?h) g b = nslot fs ms g b" for g b
  proof (cases "key_ok g b")
    case False
    then show ?thesis by (simp add: plan_pos_def nslot_def)
  next
    case True
    show ?thesis
    proof (cases "needs_results g")
      case None
      then show ?thesis using True by (simp add: plan_pos_def nslot_def)
    next
      case (Some reqs)
      show ?thesis
      proof (cases "map_of ms g")
        case None
        then have "g \<notin> fst ` set ms" by (simp add: map_of_eq_None_iff)
        then have "g \<notin> fst ` set ms'" using keys' by (metis set_map)
        then have "map_of ms' g = None" by (simp add: map_of_eq_None_iff)
        then have "map_of mo g = None" using mo [of g] by simp
        then show ?thesis using None Some True by (simp add: plan_pos_def nslot_def)
      next
        case (Some info)
        obtain ds where e: "map_of ms' g = Some \<lparr>alphas = alphas info, pos = pos info, deps = ds\<rparr>"
          using m' [OF Some] by blast
        have "g \<in> fst ` set ms" using Some by (metis map_of_eq_None_iff option.distinct(1))
        then have "g \<in> fst ` set (metas st)" using ent(3) by simp
        then have "g \<in> set order" using so mk [of g] \<open>needs_results g = Some reqs\<close> by simp
        then have "map_of mo g = Some \<lparr>alphas = alphas info, pos = pos info, deps = ds\<rparr>"
          using mo [of g] e \<open>needs_results g = Some reqs\<close> by simp
        then show ?thesis
          using Some \<open>needs_results g = Some reqs\<close> True
          by (simp add: plan_pos_def nslot_def info_pos_eta)
      qed
    qed
  qed
  have "case slot_spec ks g b of
          None \<Rightarrow> plan_pos (fs, mo, ?h) g b = None
        | Some (Some p) \<Rightarrow> plan_pos (fs, mo, ?h) g b = Some p
        | Some None \<Rightarrow> (\<exists>q. plan_pos (fs, mo, ?h) g b = Some q \<and> - ?h \<le> q \<and> q < 0)" for g b
    using ns [of g b] sl [of g b] pp [of g b] c by (auto split: option.splits)
  moreover have "0 \<le> ?h" using c by simp
  ultimately show ?thesis using p by blast
qed

lemma parse_specs_error:
  "add_specs pf 0 specs \<lparr>funcs = [], metas = [], meta_deps = []\<rparr> = Inl e \<Longrightarrow>
     parse_specs pf pick specs kk = Inl e"
  by (simp add: parse_specs_def)

lemma map_err_append:
  "map_err f (xs @ ys) =
     (case map_err f xs of
        Inl e \<Rightarrow> Inl e
      | Inr us \<Rightarrow> (case map_err f ys of Inl e \<Rightarrow> Inl e | Inr vs \<Rightarrow> Inr (us @ vs)))"
  by (induction xs) (auto split: sum.splits)

lemma first_failure:
  assumes pre: "map_err (check_spec pf) pre = Inr toks" and d: "distinct (map snd toks)"
  shows "\<exists>st. add_specs pf 0 pre \<lparr>funcs = [], metas = [], meta_deps = []\<rparr> = Inr st
           \<and> registered st (map snd toks)
           \<and> add_specs pf 0 (pre @ spec # post) \<lparr>funcs = [], metas = [], meta_deps = []\<rparr>
               = (case add_spec pf (length pre) spec st of
                    Inl e \<Rightarrow> Inl e
                  | Inr st' \<Rightarrow> add_specs pf (Suc (length pre)) post st')"
proof -
  obtain st where r: "add_specs pf (length ([] :: (func \<times> real option) list)) pre
                        \<lparr>funcs = [], metas = [], meta_deps = []\<rparr> = Inr st"
    and reg: "registered st ([] @ map snd toks)"
    using add_specs_ok [OF pre registered_init] d by auto
  then show ?thesis
    by (auto simp: add_specs_append)
qed

lemma parse_specs_first_invalid:
  assumes pre: "map_err (check_spec pf) pre = Inr toks" and d: "distinct (map snd toks)"
    and bad: "check_spec pf spec = Inl e"
  shows "parse_specs pf pick (pre @ spec # post) kk = Inl e"
proof -
  obtain st where "add_specs pf 0 (pre @ spec # post) \<lparr>funcs = [], metas = [], meta_deps = []\<rparr>
               = (case add_spec pf (length pre) spec st of
                    Inl e \<Rightarrow> Inl e
                  | Inr st' \<Rightarrow> add_specs pf (Suc (length pre)) post st')"
    using first_failure [OF pre d] by blast
  then have "add_specs pf 0 (pre @ spec # post) \<lparr>funcs = [], metas = [], meta_deps = []\<rparr> = Inl e"
    using bad by (simp add: add_spec_def)
  then show ?thesis by (rule parse_specs_error)
qed

lemma parse_specs_first_duplicate:
  assumes pre: "map_err (check_spec pf) pre = Inr toks" and d: "distinct (map snd toks)"
    and good: "check_spec pf spec = Inr (n, f, a)" and dup: "(f, a) \<in> set (map snd toks)"
  shows "parse_specs pf pick (pre @ spec # post) kk = Inl (duplicate_error n f a)"
proof -
  obtain st where reg: "registered st (map snd toks)"
    and r: "add_specs pf 0 (pre @ spec # post) \<lparr>funcs = [], metas = [], meta_deps = []\<rparr>
               = (case add_spec pf (length pre) spec st of
                    Inl e \<Rightarrow> Inl e
                  | Inr st' \<Rightarrow> add_specs pf (Suc (length pre)) post st')"
    using first_failure [OF pre d] by blast
  have "add_func n f a (Some (int (length pre))) st = Inl (duplicate_error n f a)"
    using register_duplicate [OF reg check_spec_key_ok [OF good] dup] .
  then have "add_specs pf 0 (pre @ spec # post) \<lparr>funcs = [], metas = [], meta_deps = []\<rparr>
               = Inl (duplicate_error n f a)"
    using r good by (simp add: add_spec_def)
  then show ?thesis by (rule parse_specs_error)
qed

lemma parse_specs_valid:
  assumes toks: "map_err (check_spec pf) specs = Inr toks" and d: "distinct (map snd toks)"
  shows "\<exists>fs ms h. parse_specs pf pick specs kk = Inr (fs, ms, h) \<and> 0 \<le> h
      \<and> (\<forall>g b. (case slot_spec (map snd toks) g b of
                  None \<Rightarrow> plan_pos (fs, ms, h) g b = None
                | Some (Some p) \<Rightarrow> plan_pos (fs, ms, h) g b = Some p
                | Some None \<Rightarrow> (\<exists>q. plan_pos (fs, ms, h) g b = Some q \<and> - h \<le> q \<and> q < 0)))"
proof -
  obtain st where r: "add_specs pf (length ([] :: (func \<times> real option) list)) specs
                        \<lparr>funcs = [], metas = [], meta_deps = []\<rparr> = Inr st"
    and reg: "registered st ([] @ map snd toks)"
    using add_specs_ok [OF toks registered_init] d by auto
  then show ?thesis
    using parse_specs_registered [of pf specs st "map snd toks" pick kk] by simp
qed

lemma check_spec_well_formed:
  assumes "well_formed pf spec"
  shows "\<exists>f. spec_func spec = Some f
           \<and> check_spec pf spec = Inr (fst (split_spec spec), f, spec_alpha pf spec)"
proof -
  obtain n t where sp: "split_spec spec = (n, t)" by (cases "split_spec spec")
  obtain f where f: "map_of func_mapping n = Some f"
    using assms sp by (auto simp: well_formed_def unknown_name_def spec_func_def)
  have pm: "needs_alpha f = (t \<noteq> None)"
    using assms sp f by (simp add: well_formed_def presence_mismatch_def spec_func_def)
  show ?thesis
  proof (cases t)
    case None
    then show ?thesis
      using sp f pm
      by (simp add: check_spec_def convert_alpha_def spec_func_def spec_alpha_def)
  next
    case (Some tx)
    then obtain a where a: "pf tx = Some a"
      using assms sp by (auto simp: well_formed_def malformed_alpha_def)
    then show ?thesis
      using sp f pm Some
      by (simp add: check_spec_def convert_alpha_def spec_func_def spec_alpha_def)
  qed
qed

lemma check_spec_ill_formed:
  assumes "\<not> well_formed pf spec"
  shows "\<exists>e. check_spec pf spec = Inl e \<and> error_names e spec"
proof -
  obtain n t where sp: "split_spec spec = (n, t)" by (cases "split_spec spec")
  show ?thesis
  proof (cases "malformed_alpha pf spec")
    case True
    then obtain tx where "t = Some tx" "pf tx = None"
      using sp by (auto simp: malformed_alpha_def split: option.splits)
    then show ?thesis
      using sp by (simp add: check_spec_def convert_alpha_def)
  next
    case False
    then obtain a where ca: "convert_alpha pf t = Inr a" and an: "a = None \<longleftrightarrow> t = None"
      using sp by (auto simp: malformed_alpha_def convert_alpha_def split: option.splits)
    show ?thesis
    proof (cases "map_of func_mapping n")
      case None
      then show ?thesis using sp ca by (simp add: check_spec_def)
    next
      case (Some f)
      then have "needs_alpha f \<noteq> (t \<noteq> None)"
        using assms False sp
        by (simp add: well_formed_def unknown_name_def presence_mismatch_def spec_func_def)
      then show ?thesis
        using sp ca an Some by (auto simp: check_spec_def)
    qed
  qed
qed

lemma map_err_check_spec:
  assumes "\<forall>s \<in> set specs. well_formed pf s"
  shows "\<exists>toks. map_err (check_spec pf) specs = Inr toks
           \<and> map (\<lambda>t. Some (snd t)) toks = map (request pf) specs
           \<and> map fst toks = map (\<lambda>s. fst (split_spec s)) specs"
  using assms
proof (induction specs)
  case Nil
  show ?case by simp
next
  case (Cons s specs)
  obtain f where f: "spec_func s = Some f"
    and c: "check_spec pf s = Inr (fst (split_spec s), f, spec_alpha pf s)"
    using check_spec_well_formed [of pf s] Cons.prems by auto
  obtain toks where "map_err (check_spec pf) specs = Inr toks"
    "map (\<lambda>t. Some (snd t)) toks = map (request pf) specs"
    "map fst toks = map (\<lambda>s. fst (split_spec s)) specs"
    using Cons by auto
  then show ?case
    using f c by (simp add: request_def)
qed

lemma distinct_requests:
  assumes "map (\<lambda>t. Some (snd t)) toks = map (request pf) specs"
  shows "distinct (map snd toks) \<longleftrightarrow> distinct (map (request pf) specs)"
proof -
  have "distinct (map Some xs) \<longleftrightarrow> distinct xs" for xs :: "(func \<times> real option) list"
    by (induction xs) auto
  then have "distinct (map Some (map snd toks)) \<longleftrightarrow> distinct (map snd toks)" .
  moreover have "map Some (map snd toks) = map (request pf) specs"
    using assms by (simp add: comp_def)
  ultimately show ?thesis by simp
qed

lemma first_duplicate:
  "\<not> distinct xs \<Longrightarrow> \<exists>pre x post. xs = pre @ x # post \<and> distinct pre \<and> x \<in> set pre"
proof (induction xs rule: rev_induct)
  case Nil
  then show ?case by simp
next
  case (snoc x xs)
  show ?case
  proof (cases "distinct xs")
    case True
    then have "x \<in> set xs" using snoc.prems by simp
    then show ?thesis using True by blast
  next
    case False
    then obtain pre y post where "xs = pre @ y # post" "distinct pre" "y \<in> set pre"
      using snoc.IH by blast
    then have "xs @ [x] = pre @ y # (post @ [x])" by simp
    then show ?thesis using \<open>distinct pre\<close> \<open>y \<in> set pre\<close> by blast
  qed
qed

lemma index_of_nth_distinct:
  assumes "distinct xs" and "i < length xs"
  shows "index_of xs (xs ! i) = Some i"
proof -
  obtain j where j: "index_of xs (xs ! i) = Some j"
    using index_of_in [of "xs ! i" xs] assms(2) by auto
  have "j < length xs \<and> xs ! j = xs ! i" using index_of_Some [OF j] .
  then have "j = i" using assms nth_eq_iff_index_eq [of xs j i] by auto
  with j show ?thesis by simp
qed

lemma parse_specs_well_formed:
  assumes good: "\<forall>s \<in> set specs. well_formed pf s" and d: "distinct (map (request pf) specs)"
  shows "\<exists>fs ms h. parse_specs pf pick specs kk = Inr (fs, ms, h) \<and> 0 \<le> h
      \<and> (\<forall>i f a. i < length specs \<and> request pf (specs ! i) = Some (f, a) \<longrightarrow>
            plan_pos (fs, ms, h) f a = Some (int i))
      \<and> (\<forall>f a q. plan_pos (fs, ms, h) f a = Some q \<longrightarrow>
            (0 \<le> q \<and> nat q < length specs \<and> request pf (specs ! nat q) = Some (f, a))
          \<or> (- h \<le> q \<and> q < 0))"
proof -
  obtain toks where toks: "map_err (check_spec pf) specs = Inr toks"
    and req: "map (\<lambda>t. Some (snd t)) toks = map (request pf) specs"
    using map_err_check_spec [OF good] by blast
  let ?ks = "map snd toks"
  have dk: "distinct ?ks" using distinct_requests [OF req] d by simp
  have len: "length toks = length specs" using req by (metis length_map)
  have key: "request pf (specs ! i) = Some (?ks ! i)" if "i < length specs" for i
  proof -
    have "map (\<lambda>t. Some (snd t)) toks ! i = map (request pf) specs ! i" using req by simp
    then show ?thesis using that len by simp
  qed
  obtain fs ms h where p: "parse_specs pf pick specs kk = Inr (fs, ms, h)" and h: "0 \<le> h"
    and sl: "\<And>g b. (case slot_spec ?ks g b of
                  None \<Rightarrow> plan_pos (fs, ms, h) g b = None
                | Some (Some p) \<Rightarrow> plan_pos (fs, ms, h) g b = Some p
                | Some None \<Rightarrow> (\<exists>q. plan_pos (fs, ms, h) g b = Some q \<and> - h \<le> q \<and> q < 0))"
    using parse_specs_valid [OF toks dk, of pick kk] by blast
  have vis: "plan_pos (fs, ms, h) f a = Some (int i)"
    if "i < length specs" and "request pf (specs ! i) = Some (f, a)" for i f a
  proof -
    have "?ks ! i = (f, a)" using key [OF that(1)] that(2) by simp
    then have "index_of ?ks (f, a) = Some i"
      using index_of_nth_distinct [OF dk, of i] that(1) len by simp
    then have "slot_spec ?ks f a = Some (Some (int i))" by (simp add: slot_spec_def)
    then show ?thesis using sl [of f a] by simp
  qed
  have hid: "(0 \<le> q \<and> nat q < length specs \<and> request pf (specs ! nat q) = Some (f, a))
          \<or> (- h \<le> q \<and> q < 0)"
    if pq: "plan_pos (fs, ms, h) f a = Some q" for f a q
  proof (cases "index_of ?ks (f, a)")
    case None
    then show ?thesis
      using sl [of f a] pq by (auto simp: slot_spec_def split: if_splits)
  next
    case (Some k)
    then have "slot_spec ?ks f a = Some (Some (int k))" by (simp add: slot_spec_def)
    then have q: "q = int k" using sl [of f a] pq by simp
    have "k < length ?ks \<and> ?ks ! k = (f, a)" using index_of_Some [OF Some] .
    then show ?thesis using q key [of k] len by simp
  qed
  show ?thesis using p h vis hid by blast
qed

lemma parse_specs_ill_formed:
  assumes "s \<in> set specs" and "\<not> well_formed pf s"
  shows "\<exists>e. parse_specs pf pick specs kk = Inl e"
proof -
  obtain e where "check_spec pf s = Inl e"
    using check_spec_ill_formed [OF assms(2)] by blast
  then obtain e' where "add_specs pf 0 specs \<lparr>funcs = [], metas = [], meta_deps = []\<rparr> = Inl e'"
    using add_specs_invalid [OF assms(1)] by blast
  then show ?thesis using parse_specs_error by blast
qed

section \<open>The bag-size check of \<^verbatim>\<open>fit\<close>\<close>

text \<open>
  C5, as amended. The claim: \<^verbatim>\<open>fit\<close> fails with the data error exactly when some bag
  has fewer points than the effective max K. The code tests
  \<^verbatim>\<open>self.max_K_ >= min_pt\<close>, so a bag with exactly max K points fails too (a point is
  its own nearest neighbour, so K neighbours need K + 1 points). Proved here, for an
  object whose arguments pass \<^verbatim>\<open>_setup_args\<close> and whose functions specialize (giving
  the state \<open>s2\<close> with the effective max K): \<^verbatim>\<open>fit\<close> raises the error, reporting max K
  and the size of the smallest bag, exactly when some bag has at most max K points; no
  other path of \<^verbatim>\<open>fit\<close> raises it; bags with more than max K points pass the check;
  and when it is raised, no index and no radius has been computed or logged.
\<close>

theorem fit_insufficient_points:
  assumes args: "setup_args E s = Inr ((), s1)"
    and choose: "choose_funcs E X None (s1\<lparr>features' := Some X\<rparr>) = Inr ((), s2)"
    and K: "max_K' s2 = Some K"
    and ne: "bags X \<noteq> []"
  shows "(fit E X skip_rhos s = Inl (InsufficientPoints K (Min (set (n_pts X))), s2)
           \<longleftrightarrow> (\<exists>bag \<in> set (bags X). int (length bag) \<le> K))
       \<and> (\<forall>k n s'. fit E X skip_rhos s = Inl (InsufficientPoints k n, s') \<longrightarrow>
             (\<exists>bag \<in> set (bags X). int (length bag) \<le> K))
       \<and> ((\<forall>bag \<in> set (bags X). K < int (length bag)) \<longrightarrow> check_Ks X None s2 = Inr ((), s2))
       \<and> indices' s2 = indices' s \<and> rhos' s2 = rhos' s \<and> logged s2 = logged s"
proof -
  have unfold: "fit E X skip_rhos s =
     (case check_Ks X None s2 of
        Inl x \<Rightarrow> Inl x
      | Inr (_, s3) \<Rightarrow>
          (case build_indices X s3 of
             Inl x \<Rightarrow> Inl x
           | Inr (idx, s4) \<Rightarrow>
               if \<not> skip_rhos then
                 (case get_rhos E X idx (s4\<lparr>indices' := Some idx\<rparr>) of
                    Inl x \<Rightarrow> Inl x
                  | Inr (r, s5) \<Rightarrow> Inr ((), s5\<lparr>rhos' := Some r\<rparr>))
               else Inr ((), s4\<lparr>indices' := Some idx\<rparr>)))"
    by (simp add: fit_def args choose)
  have chk: "check_Ks X None s2 =
           (if K \<ge> int (Min (set (n_pts X)))
            then Inl (InsufficientPoints K (Min (set (n_pts X))), s2) else Inr ((), s2))"
    using check_Ks_X [OF ne K] .
  have iff: "int (Min (set (n_pts X))) \<le> K \<longleftrightarrow> (\<exists>bag \<in> set (bags X). int (length bag) \<le> K)"
    using Min_le_iff_bag [OF ne] .
  have pass: "\<not> int (Min (set (n_pts X))) \<le> K \<Longrightarrow>
      fit E X skip_rhos s \<noteq> Inl (InsufficientPoints k n, s')" for k n s'
  proof
    assume lt: "\<not> int (Min (set (n_pts X))) \<le> K"
      and f: "fit E X skip_rhos s = Inl (InsufficientPoints k n, s')"
    let ?s4 = "s2\<lparr>logged := logged s2 @ [Info ''Building indices...''],
                  indices' := Some (map FLANNIndex (bags X))\<rparr>"
    have "get_rhos E X (map FLANNIndex (bags X)) ?s4 = Inl (InsufficientPoints k n, s')"
      using f lt unfold chk
      by (auto simp: build_indices_def split: if_splits sum.splits)
    then have "InsufficientPoints k n = PyIndexError \<or> InsufficientPoints k n = PyAttributeError"
      using get_rhos_error [of E X "map FLANNIndex (bags X)" ?s4 "InsufficientPoints k n" s' K]
        ne K lt by simp
    then show False by simp
  qed
  have s2_fields: "indices' s2 = indices' s \<and> rhos' s2 = rhos' s \<and> logged s2 = logged s"
  proof -
    have a: "indices' s1 = indices' s \<and> rhos' s1 = rhos' s \<and> logged s1 = logged s"
      using args by (auto simp: setup_args_def split: sum.splits if_splits option.splits prod.splits)
    have b: "indices' s2 = indices' s1 \<and> rhos' s2 = rhos' s1 \<and> logged s2 = logged s1"
      using choose
      by (auto simp: choose_funcs_def Let_def split: sum.splits if_splits option.splits prod.splits)
    from a b show ?thesis by simp
  qed
  have c1: "fit E X skip_rhos s = Inl (InsufficientPoints K (Min (set (n_pts X))), s2)
           \<longleftrightarrow> (\<exists>bag \<in> set (bags X). int (length bag) \<le> K)"
  proof (cases "int (Min (set (n_pts X))) \<le> K")
    case True
    then show ?thesis using unfold chk iff by simp
  next
    case False
    then show ?thesis using pass iff by simp
  qed
  have c2: "\<forall>k n s'. fit E X skip_rhos s = Inl (InsufficientPoints k n, s') \<longrightarrow>
             (\<exists>bag \<in> set (bags X). int (length bag) \<le> K)"
    using pass iff by blast
  have c3: "(\<forall>bag \<in> set (bags X). K < int (length bag)) \<longrightarrow> check_Ks X None s2 = Inr ((), s2)"
  proof
    assume "\<forall>bag \<in> set (bags X). K < int (length bag)"
    then have "\<not> int (Min (set (n_pts X))) \<le> K"
      using iff by auto
    then show "check_Ks X None s2 = Inr ((), s2)"
      using chk by simp
  qed
  show ?thesis
    using c1 c2 c3 s2_fields by blast
qed


theorem fit_insufficient_points_witness:
  "setup_args example_env kl_estimator = Inr ((), kl_estimator)
   \<and> choose_funcs example_env three_points None (kl_estimator\<lparr>features' := Some three_points\<rparr>)
       = Inr ((), kl_chosen three_points)
   \<and> max_K' (kl_chosen three_points) = Some 3
   \<and> bags three_points \<noteq> []
   \<and> fit example_env three_points False kl_estimator
       = Inl (InsufficientPoints 3 (Min (set (n_pts three_points))), kl_chosen three_points)"
proof -
  have h1: "setup_args example_env kl_estimator = Inr ((), kl_estimator)"
    by code_simp
  have h2: "choose_funcs example_env three_points None
              (kl_estimator\<lparr>features' := Some three_points\<rparr>) = Inr ((), kl_chosen three_points)"
    by code_simp
  have h3: "max_K' (kl_chosen three_points) = Some 3"
    by code_simp
  have h4: "bags three_points \<noteq> []"
    by code_simp
  have h5: "\<exists>bag \<in> set (bags three_points). int (length bag) \<le> 3"
    by code_simp
  show ?thesis
    using fit_insufficient_points [OF h1 h2 h3 h4, of False] h1 h2 h3 h4 h5 by blast
qed

text \<open>
  The claim as stated fails on a bag of exactly max K = 3 points: no bag has fewer than
  3 points, and \<^verbatim>\<open>fit\<close> raises.
\<close>

theorem fit_equal_size_counterexample:
  "fit example_env three_points False kl_estimator
     = Inl (InsufficientPoints 3 3, kl_chosen three_points)
   \<and> map length (bags three_points) = [3]"
  by code_simp

section \<open>The plan is parsed once\<close>

text \<open>
  C2. The claim: the plan is rebuilt when \<^verbatim>\<open>div_funcs\<close> changes between calls of
  \<^verbatim>\<open>fit\<close>. \<^verbatim>\<open>_setup_args\<close> parses the specs only while the object has no
  \<^verbatim>\<open>funcs_base_\<close>, and \<^verbatim>\<open>__init__\<close> has already set it: an object constructed for
  \<^verbatim>\<open>('kl',)\<close> whose \<^verbatim>\<open>div_funcs\<close> is then set to \<^verbatim>\<open>('linear',)\<close> is fitted with the
  plan of \<^verbatim>\<open>('kl',)\<close>.
\<close>

theorem fit_keeps_plan_of_construction:
  "(case init example_env [''kl''] [3] False True (1 / 2) True of
      Inl e \<Rightarrow> None
    | Inr s \<Rightarrow>
        (case fit example_env \<lparr>bags = [[0, 1, 3, 7, 12]], fdim = 1\<rparr> False
                (s\<lparr>div_funcs := [''linear'']\<rparr>) of
           Inl x \<Rightarrow> None
         | Inr (_, s') \<Rightarrow> Some (div_funcs s', map_option funcs_base' (base' s'))))
     = Some ([''linear''], Some [(Kl, \<lparr>alphas = None, pos = [0]\<rparr>)])
   \<and> map_sum id fst (parse_specs float_table (\<lambda>_. 0) [''linear''] [3])
     = Inr [(Linear, \<lparr>alphas = None, pos = [0]\<rparr>)]"
  by code_simp

section \<open>The within-bag radii\<close>

lemma map_err_Inr_set:
  "map_err f xs = Inr ys \<Longrightarrow> y \<in> set ys \<Longrightarrow> \<exists>x \<in> set xs. f x = Inr y"
proof (induction xs arbitrary: ys)
  case Nil
  then show ?case by simp
next
  case (Cons x xs)
  then show ?case by (auto split: sum.splits)
qed

lemma py_nth_nonneg:
  "py_nth xs k = Inr v \<Longrightarrow> 0 \<le> k \<Longrightarrow> nat k < length xs \<and> v = xs ! nat k"
  by (auto simp: py_nth_def Let_def split: if_splits)

lemma select_columns_row:
  assumes "select_columns which r = Inr cols" and "crow \<in> set cols"
  shows "\<exists>drow \<in> set r. map_err (py_nth drow) which = Inr crow"
  using assms unfolding select_columns_def by (rule map_err_Inr_set)

lemma bag_rhos_row:
  assumes b: "bag_rhos E s save_all K (bag, ix) = Inr r" and row: "row \<in> set r"
    and ks: "\<forall>k \<in> set (Ks s). 1 \<le> k"
  shows "(save_all \<or> length row = length (Ks s))
       \<and> (\<exists>drow \<in> set (nn_index E ix bag (K + 1)).
           \<forall>c < length row.
              1 \<le> (if save_all then int c + 1 else Ks s ! c)
            \<and> nat (if save_all then int c + 1 else Ks s ! c) < length drow
            \<and> row ! c = max (min_dist s)
                 (np_sqrt E (drow ! nat (if save_all then int c + 1 else Ks s ! c))))"
proof (cases save_all)
  case True
  have r: "r = map (map (\<lambda>d. max (min_dist s) (np_sqrt E d)))
                 (map (drop 1) (nn_index E ix bag (K + 1)))"
    using b True by (simp add: bag_rhos_def)
  then obtain drow where d: "drow \<in> set (nn_index E ix bag (K + 1))"
    and rowd: "row = map (\<lambda>d. max (min_dist s) (np_sqrt E d)) (drop 1 drow)"
    using row by auto
  have "\<forall>c < length row. 1 \<le> int c + 1 \<and> nat (int c + 1) < length drow
          \<and> row ! c = max (min_dist s) (np_sqrt E (drow ! nat (int c + 1)))"
  proof (intro allI impI)
    fix c assume c: "c < length row"
    then have c': "c < length drow - 1" using rowd by simp
    have n: "nat (int c + 1) = Suc c" by simp
    have "row ! c = max (min_dist s) (np_sqrt E (drop 1 drow ! c))"
      using c' rowd by simp
    also have "drop 1 drow ! c = drow ! Suc c"
      using c' by simp
    finally show "1 \<le> int c + 1 \<and> nat (int c + 1) < length drow
          \<and> row ! c = max (min_dist s) (np_sqrt E (drow ! nat (int c + 1)))"
      using c' n by simp
  qed
  with d True show ?thesis by auto
next
  case False
  obtain cols where sel: "select_columns (Ks s) (nn_index E ix bag (K + 1)) = Inr cols"
    and r: "r = map (map (\<lambda>d. max (min_dist s) (np_sqrt E d))) cols"
    using b False by (auto simp: bag_rhos_def split: sum.splits)
  obtain crow where crow: "crow \<in> set cols"
    and rowc: "row = map (\<lambda>d. max (min_dist s) (np_sqrt E d)) crow"
    using row r by auto
  obtain drow where d: "drow \<in> set (nn_index E ix bag (K + 1))"
    and m: "map_err (py_nth drow) (Ks s) = Inr crow"
    using select_columns_row [OF sel crow] by blast
  have len: "length crow = length (Ks s)"
    using m by (rule map_err_Inr_length)
  have "\<forall>c < length row. 1 \<le> Ks s ! c \<and> nat (Ks s ! c) < length drow
          \<and> row ! c = max (min_dist s) (np_sqrt E (drow ! nat (Ks s ! c)))"
  proof (intro allI impI)
    fix c assume c: "c < length row"
    then have c': "c < length (Ks s)" using rowc len by simp
    have k1: "1 \<le> Ks s ! c" using ks c' by simp
    have "py_nth drow (Ks s ! c) = Inr (crow ! c)"
      using map_err_Inr_nth [OF m c'] .
    then have "nat (Ks s ! c) < length drow \<and> crow ! c = drow ! nat (Ks s ! c)"
      using k1 py_nth_nonneg [of drow "Ks s ! c" "crow ! c"] by simp
    moreover have "row ! c = max (min_dist s) (np_sqrt E (crow ! c))"
      using c' rowc len by simp
    ultimately show "1 \<le> Ks s ! c \<and> nat (Ks s ! c) < length drow
          \<and> row ! c = max (min_dist s) (np_sqrt E (drow ! nat (Ks s ! c)))"
      using k1 by simp
  qed
  moreover have "length row = length (Ks s)" using rowc len by simp
  ultimately show ?thesis using d False by auto
qed

lemma bag_rhos_floor:
  assumes b: "bag_rhos E s save_all K bi = Inr r" and row: "row \<in> set r" and x: "x \<in> set row"
  shows "min_dist s \<le> x"
proof -
  obtain cols where "r = map (map (\<lambda>d. max (min_dist s) (np_sqrt E d))) cols"
    using b by (auto simp: bag_rhos_def split: prod.splits sum.splits if_splits)
  then obtain d where "x = max (min_dist s) (np_sqrt E d)"
    using row x by auto
  then show ?thesis by simp
qed

lemma get_rhos_bag:
  assumes g: "get_rhos E X indices s = Inr (rs, s')" and bp: "base' s = Some bp"
    and K: "max_K' s = Some K" and r: "Some r \<in> set rs"
  shows "\<exists>bag ix. (bag, ix) \<in> set (zip (bags X) indices)
           \<and> bag_rhos E (s\<lparr>logged := logged s @ [Info ''Getting within-bag distances...'']\<rparr>)
                (save_all_Ks' bp) K (bag, ix) = Inr r"
proof -
  let ?s1 = "s\<lparr>logged := logged s @ [Info ''Getting within-bag distances...'']\<rparr>"
  have same: "\<And>u s2. check_Ks X None ?s1 = Inr (u, s2) \<Longrightarrow> s2 = ?s1"
    by (auto simp: check_Ks_def split: sum.splits option.splits if_splits)
  obtain rows where m: "map_err (bag_rhos E ?s1 (save_all_Ks' bp) K) (zip (bags X) indices) = Inr rows"
    and rs: "rs = map Some rows @ replicate (length (bags X) - length rows) None"
    using g bp K same
    by (auto simp: get_rhos_def Let_def split: sum.splits option.splits prod.splits)
  have "r \<in> set rows" using r rs by auto
  then obtain bi where "bi \<in> set (zip (bags X) indices)"
    and "bag_rhos E ?s1 (save_all_Ks' bp) K bi = Inr r"
    using map_err_Inr_set [OF m] by blast
  moreover obtain bag ix where "bi = (bag, ix)" by (cases bi)
  ultimately show ?thesis by blast
qed

lemma sqrt_down_mono: "m \<le> n \<Longrightarrow> sqrt_down m \<le> sqrt_down n"
proof (induction n)
  case 0
  then show ?case by simp
next
  case (Suc n)
  show ?case
  proof (cases "m = Suc n")
    case True
    then show ?thesis by simp
  next
    case False
    with Suc.prems have "m \<le> n" by simp
    then have "sqrt_down m \<le> sqrt_down n" by (rule Suc.IH)
    also have "sqrt_down n \<le> sqrt_down (Suc n)" by (simp add: Let_def)
    finally show ?thesis .
  qed
qed

lemma example_sqrt_mono: "mono (np_sqrt example_env)"
proof (rule monoI)
  fix x y :: real
  assume "x \<le> y"
  then have "nat \<lfloor>x\<rfloor> \<le> nat \<lfloor>y\<rfloor>"
    by (simp add: floor_mono nat_mono)
  then show "np_sqrt example_env x \<le> np_sqrt example_env y"
    by (simp add: example_env_def sqrt_down_mono)
qed

lemma exact_nn_sorted: "drow \<in> set (nn_index example_env ix bag k) \<Longrightarrow> sorted drow"
proof -
  assume d: "drow \<in> set (nn_index example_env ix bag k)"
  obtain pts where ix: "ix = FLANNIndex pts" by (cases ix)
  obtain q where "drow = map real_of_int (take (nat k) (sort (map (\<lambda>p. (p - q) * (p - q)) pts)))"
    using d ix by (auto simp: example_env_def exact_nn_def)
  moreover have "sorted (take (nat k) (sort (map (\<lambda>p. (p - q) * (p - q)) pts)))"
    by (simp add: sorted_wrt_take)
  ultimately show ?thesis
    by (simp add: sorted_map sorted_wrt_mono_rel [where P = "(\<le>)"])
qed

text \<open>
  C8, as amended. The claim reads: every entry of every rho array is at least
  \<^verbatim>\<open>min_dist\<close>, each row is non-decreasing across its K columns, and the self-match
  column is excluded. The columns of a rho array follow \<^verbatim>\<open>self.Ks\<close> in the order in
  which the caller gave them (line 150), so a row is ordered from left to right only
  when that order is non-decreasing (the run that follows the proof shows a row
  \<open>[7, 1, 7]\<close>).
  Proved here: every entry of every rho array that \<^verbatim>\<open>_get_rhos\<close> returns is at least
  \<^verbatim>\<open>min_dist\<close>. When the requested Ks are positive (as \<^verbatim>\<open>_setup_args\<close> checks), every
  row of a rho array comes from one row of distances of the index: column \<open>c\<close> holds
  the clamped root of the distance at rank \<open>column_K c\<close>, which is at least 1, so the
  self-match at rank 0 is excluded; and when the index returns its distances sorted by
  rank (and the square root is monotone), a row is non-decreasing in K: a column of a
  smaller or equal K holds a smaller or equal radius. Hence a row is non-decreasing
  from left to right when all ranks are kept (\<^verbatim>\<open>save_all_Ks_\<close>) or \<^verbatim>\<open>Ks\<close> is given in
  non-decreasing order.
\<close>

theorem rhos_floor_and_monotone:
  assumes g: "get_rhos E X indices s = Inr (rs, s')" and bp: "base' s = Some bp"
    and K: "max_K' s = Some K" and r: "Some r \<in> set rs" and row: "row \<in> set r"
  shows "(\<forall>x \<in> set row. min_dist s \<le> x)
    \<and> ((\<forall>k \<in> set (Ks s). 1 \<le> k) \<longrightarrow>
         (\<exists>bag ix drow. (bag, ix) \<in> set (zip (bags X) indices)
            \<and> drow \<in> set (nn_index E ix bag (K + 1))
            \<and> (\<forall>c < length row. 1 \<le> column_K s bp c \<and> nat (column_K s bp c) < length drow
                  \<and> row ! c = max (min_dist s) (np_sqrt E (drow ! nat (column_K s bp c)))))
       \<and> (mono (np_sqrt E) \<longrightarrow>
            (\<forall>ix bag k. \<forall>drow \<in> set (nn_index E ix bag k). sorted drow) \<longrightarrow>
            (\<forall>c1 < length row. \<forall>c2 < length row.
               column_K s bp c1 \<le> column_K s bp c2 \<longrightarrow> row ! c1 \<le> row ! c2)
          \<and> (save_all_Ks' bp \<or> sorted (Ks s) \<longrightarrow> sorted row)))"
proof -
  let ?s1 = "s\<lparr>logged := logged s @ [Info ''Getting within-bag distances...'']\<rparr>"
  obtain bag ix where z: "(bag, ix) \<in> set (zip (bags X) indices)"
    and b: "bag_rhos E ?s1 (save_all_Ks' bp) K (bag, ix) = Inr r"
    using get_rhos_bag [OF g bp K r] by blast
  have floor: "\<forall>x \<in> set row. min_dist s \<le> x"
    using bag_rhos_floor [OF b row] by simp
  have rest: "(\<exists>bag ix drow. (bag, ix) \<in> set (zip (bags X) indices)
            \<and> drow \<in> set (nn_index E ix bag (K + 1))
            \<and> (\<forall>c < length row. 1 \<le> column_K s bp c \<and> nat (column_K s bp c) < length drow
                  \<and> row ! c = max (min_dist s) (np_sqrt E (drow ! nat (column_K s bp c)))))
       \<and> (mono (np_sqrt E) \<longrightarrow>
            (\<forall>ix bag k. \<forall>drow \<in> set (nn_index E ix bag k). sorted drow) \<longrightarrow>
            (\<forall>c1 < length row. \<forall>c2 < length row.
               column_K s bp c1 \<le> column_K s bp c2 \<longrightarrow> row ! c1 \<le> row ! c2)
          \<and> (save_all_Ks' bp \<or> sorted (Ks s) \<longrightarrow> sorted row))"
    if ks: "\<forall>k \<in> set (Ks s). 1 \<le> k"
  proof -
    have ks1: "\<forall>k \<in> set (Ks ?s1). 1 \<le> k" using ks by simp
    have len: "save_all_Ks' bp \<or> length row = length (Ks s)"
      using bag_rhos_row [OF b row ks1] by simp
    have "\<exists>drow \<in> set (nn_index E ix bag (K + 1)).
            \<forall>c < length row. 1 \<le> column_K s bp c \<and> nat (column_K s bp c) < length drow
                  \<and> row ! c = max (min_dist s) (np_sqrt E (drow ! nat (column_K s bp c)))"
      using bag_rhos_row [OF b row ks1, THEN conjunct2] by (simp add: column_K_def cong: if_cong)
    then obtain drow where d: "drow \<in> set (nn_index E ix bag (K + 1))"
      and cols: "\<forall>c < length row. 1 \<le> column_K s bp c \<and> nat (column_K s bp c) < length drow
                  \<and> row ! c = max (min_dist s) (np_sqrt E (drow ! nat (column_K s bp c)))"
      by blast
    have mono: "row ! c1 \<le> row ! c2"
      if m: "mono (np_sqrt E)"
        and srt: "\<forall>ix bag k. \<forall>drow \<in> set (nn_index E ix bag k). sorted drow"
        and c1: "c1 < length row" and c2: "c2 < length row"
        and le: "column_K s bp c1 \<le> column_K s bp c2" for c1 c2
    proof -
      have "sorted drow" using srt d by blast
      moreover have "nat (column_K s bp c1) \<le> nat (column_K s bp c2)"
        using le by simp
      moreover have "nat (column_K s bp c2) < length drow"
        using cols c2 by simp
      ultimately have "drow ! nat (column_K s bp c1) \<le> drow ! nat (column_K s bp c2)"
        by (simp add: sorted_nth_mono)
      then have "np_sqrt E (drow ! nat (column_K s bp c1)) \<le> np_sqrt E (drow ! nat (column_K s bp c2))"
        using m by (simp add: monoD)
      then have "max (min_dist s) (np_sqrt E (drow ! nat (column_K s bp c1)))
                   \<le> max (min_dist s) (np_sqrt E (drow ! nat (column_K s bp c2)))"
        by (rule max.mono [OF order_refl])
      moreover have "row ! c1 = max (min_dist s) (np_sqrt E (drow ! nat (column_K s bp c1)))"
        using cols c1 by blast
      moreover have "row ! c2 = max (min_dist s) (np_sqrt E (drow ! nat (column_K s bp c2)))"
        using cols c2 by blast
      ultimately show ?thesis by simp
    qed
    have srow: "sorted row"
      if m: "mono (np_sqrt E)"
        and srt: "\<forall>ix bag k. \<forall>drow \<in> set (nn_index E ix bag k). sorted drow"
        and ord: "save_all_Ks' bp \<or> sorted (Ks s)"
    proof -
      have "row ! c1 \<le> row ! c2" if c12: "c1 \<le> c2" and c2: "c2 < length row" for c1 c2
      proof -
        have "column_K s bp c1 \<le> column_K s bp c2"
        proof (cases "save_all_Ks' bp")
          case True
          then show ?thesis using c12 by (simp add: column_K_def)
        next
          case False
          then have "sorted (Ks s)" and "c2 < length (Ks s)"
            using ord len c2 by simp_all
          then have "Ks s ! c1 \<le> Ks s ! c2"
            using c12 by (simp add: sorted_nth_mono)
          then show ?thesis using False by (simp add: column_K_def)
        qed
        then show ?thesis
          using mono [OF m srt _ c2, of c1] c12 c2 by simp
      qed
      then show ?thesis
        by (simp add: sorted_iff_nth_mono)
    qed
    show ?thesis
      using z d cols mono srow by blast
  qed
  show ?thesis
    using floor rest by blast
qed


theorem rhos_floor_and_monotone_witness:
  "get_rhos example_env five_points (map FLANNIndex (bags five_points)) (kl_chosen five_points)
     = Inr ([Some [[3, 7], [2, 6], [3, 4], [5, 6], [9, 11]]],
            (kl_chosen five_points)\<lparr>logged := [Info ''Getting within-bag distances...'']\<rparr>)
   \<and> list_all (\<lambda>k. 1 \<le> k) (Ks (kl_chosen five_points))
   \<and> mono (np_sqrt example_env)
   \<and> list_all (\<lambda>x. min_dist (kl_chosen five_points) \<le> x) [3, 7]
   \<and> column_K (kl_chosen five_points)
         \<lparr>funcs_base' = [(Kl, \<lparr>alphas = None, pos = [0]\<rparr>)], metas_base' = [],
            n_meta_only' = 0, save_all_Ks' = False\<rparr> 0 = 2
   \<and> column_K (kl_chosen five_points)
         \<lparr>funcs_base' = [(Kl, \<lparr>alphas = None, pos = [0]\<rparr>)], metas_base' = [],
            n_meta_only' = 0, save_all_Ks' = False\<rparr> 1 = 3
   \<and> [3, 7 :: real] ! 0 \<le> [3, 7] ! 1
   \<and> sorted (Ks (kl_chosen five_points))
   \<and> sorted [3, 7 :: real]"
proof -
  have g: "get_rhos example_env five_points (map FLANNIndex (bags five_points))
             (kl_chosen five_points)
     = Inr ([Some [[3, 7], [2, 6], [3, 4], [5, 6], [9, 11]]],
            (kl_chosen five_points)\<lparr>logged := [Info ''Getting within-bag distances...'']\<rparr>)"
    by code_simp
  have bp: "base' (kl_chosen five_points)
     = Some \<lparr>funcs_base' = [(Kl, \<lparr>alphas = None, pos = [0]\<rparr>)], metas_base' = [],
               n_meta_only' = 0, save_all_Ks' = False\<rparr>"
    by code_simp
  have K: "max_K' (kl_chosen five_points) = Some 3"
    by code_simp
  have r: "Some [[3, 7], [2, 6], [3, 4], [5, 6], [9, 11 :: real]]
             \<in> set [Some [[3, 7], [2, 6], [3, 4], [5, 6], [9, 11]]]"
    by simp
  have row: "[3, 7 :: real] \<in> set [[3, 7], [2, 6], [3, 4], [5, 6], [9, 11]]"
    by simp
  have ks: "\<forall>k \<in> set (Ks (kl_chosen five_points)). 1 \<le> k"
    by code_simp
  have srt: "\<forall>ix bag k. \<forall>drow \<in> set (nn_index example_env ix bag k). sorted drow"
    using exact_nn_sorted by blast
  have c0: "column_K (kl_chosen five_points)
         \<lparr>funcs_base' = [(Kl, \<lparr>alphas = None, pos = [0]\<rparr>)], metas_base' = [],
            n_meta_only' = 0, save_all_Ks' = False\<rparr> 0 = 2"
    by code_simp
  have c1: "column_K (kl_chosen five_points)
         \<lparr>funcs_base' = [(Kl, \<lparr>alphas = None, pos = [0]\<rparr>)], metas_base' = [],
            n_meta_only' = 0, save_all_Ks' = False\<rparr> 1 = 3"
    by code_simp
  note th = rhos_floor_and_monotone [OF g bp K r row]
  have floor: "list_all (\<lambda>x. min_dist (kl_chosen five_points) \<le> x) [3, 7]"
    using th by (simp add: list_all_iff)
  have a: "\<forall>c1 < length [3, 7 :: real]. \<forall>c2 < length [3, 7 :: real].
         column_K (kl_chosen five_points)
             \<lparr>funcs_base' = [(Kl, \<lparr>alphas = None, pos = [0]\<rparr>)], metas_base' = [],
                n_meta_only' = 0, save_all_Ks' = False\<rparr> c1
           \<le> column_K (kl_chosen five_points)
             \<lparr>funcs_base' = [(Kl, \<lparr>alphas = None, pos = [0]\<rparr>)], metas_base' = [],
                n_meta_only' = 0, save_all_Ks' = False\<rparr> c2
         \<longrightarrow> [3, 7 :: real] ! c1 \<le> [3, 7] ! c2"
    using th ks example_sqrt_mono srt by blast
  have l0: "(0::nat) < length [3, 7 :: real]" by simp
  have l1: "(1::nat) < length [3, 7 :: real]" by simp
  have le: "column_K (kl_chosen five_points)
             \<lparr>funcs_base' = [(Kl, \<lparr>alphas = None, pos = [0]\<rparr>)], metas_base' = [],
                n_meta_only' = 0, save_all_Ks' = False\<rparr> 0
           \<le> column_K (kl_chosen five_points)
             \<lparr>funcs_base' = [(Kl, \<lparr>alphas = None, pos = [0]\<rparr>)], metas_base' = [],
                n_meta_only' = 0, save_all_Ks' = False\<rparr> 1"
    by (simp only: c0 c1)
  have sk: "sorted (Ks (kl_chosen five_points))"
    by code_simp
  have sr: "sorted [3, 7 :: real]"
    using th ks example_sqrt_mono srt sk by blast
  have "[3, 7 :: real] ! 0 \<le> [3, 7] ! 1"
    using a [rule_format, OF l0 l1 le] .
  then show ?thesis
    using g ks example_sqrt_mono floor c0 c1 sk sr by (simp add: list_all_iff)
qed

text \<open>
  For \<^verbatim>\<open>KNNDivergenceEstimator(div_funcs=('kl',), Ks=(3, 1, 3), min_dist=0.5)\<close> fitted
  on one bag of the five points 0, 1, 3, 7, 12, with distances sorted by rank, the
  first row of the rho array is \<open>[7, 1, 7]\<close>, which is not non-decreasing across its
  columns.
\<close>

theorem rhos_row_order_counterexample:
  "init example_env [''kl''] [3, 1, 3] False True (1 / 2) True
     = Inr (kl_estimator\<lparr>Ks := [3, 1, 3]\<rparr>)
   \<and> map_sum fst (\<lambda>x. rhos' (snd x))
         (fit example_env five_points False (kl_estimator\<lparr>Ks := [3, 1, 3]\<rparr>))
       = Inr (Some [Some [[7, 1, 7], [6, 1, 6], [4, 2, 4], [6, 4, 6], [11, 5, 11]]])
   \<and> map_sum fst fst
         (and_then (fit example_env five_points True (kl_estimator\<lparr>Ks := [3, 1, 3]\<rparr>))
            (get_rhos example_env five_points (map FLANNIndex (bags five_points))))
       = Inr [Some [[7, 1, 7], [6, 1, 6], [4, 2, 4], [6, 4, 6], [11, 5, 11]]]
   \<and> \<not> sorted [7, 1, 7 :: real]"
proof -
  have i: "init example_env [''kl''] [3, 1, 3] False True (1 / 2) True
     = Inr (kl_estimator\<lparr>Ks := [3, 1, 3]\<rparr>)"
    by code_simp
  have f: "map_sum fst (\<lambda>x. rhos' (snd x))
         (fit example_env five_points False (kl_estimator\<lparr>Ks := [3, 1, 3]\<rparr>))
       = Inr (Some [Some [[7, 1, 7], [6, 1, 6], [4, 2, 4], [6, 4, 6], [11, 5, 11]]])"
    by code_simp
  have g: "map_sum fst fst
         (and_then (fit example_env five_points True (kl_estimator\<lparr>Ks := [3, 1, 3]\<rparr>))
            (get_rhos example_env five_points (map FLANNIndex (bags five_points))))
       = Inr [Some [[7, 1, 7], [6, 1, 6], [4, 2, 4], [6, 4, 6], [11, 5, 11]]]"
    by code_simp
  have n: "\<not> sorted [7, 1, 7 :: real]"
    by simp
  show ?thesis
    using i f g n by (intro conjI)
qed

section \<open>Metas that need the radii of Y\<close>

lemma set_update_subset: "set (AList.update k v al) \<subseteq> insert (k, v) (set al)"
  by (induction al) auto

lemma order_metas_set:
  "order_metas ms order acc = Inr out \<Longrightarrow> (f, info) \<in> set out \<Longrightarrow>
     (f, info) \<in> set acc \<or> (f, info) \<in> set ms"
proof (induction ms order acc rule: order_metas.induct)
  case (1 ms acc)
  then show ?case by simp
next
  case (2 ms g rest acc)
  show ?case
  proof (cases "needs_results g = None")
    case True
    with 2 show ?thesis by simp
  next
    case False
    then obtain i where i: "map_of ms g = Some i"
      and o: "order_metas ms rest (AList.update g i acc) = Inr out"
      using "2.prems"(1) by (auto split: option.splits)
    have "(f, info) \<in> set (AList.update g i acc) \<or> (f, info) \<in> set ms"
      using "2.IH"(2) [OF False i o "2.prems"(2)] .
    moreover have "(g, i) \<in> set ms"
      using i by (rule map_of_SomeD)
    ultimately show ?thesis
      using set_update_subset [of g i acc] by auto
  qed
qed

lemma fill_deps_set:
  "fill_deps fs ms0 rest = Inr out \<Longrightarrow> (f, info) \<in> set out \<Longrightarrow>
     \<exists>fi \<in> set rest. fill_one fs ms0 fi = Inr (f, info)"
proof (induction rest arbitrary: out)
  case Nil
  then show ?case by simp
next
  case (Cons fi rest)
  then show ?case by (auto split: sum.splits)
qed

lemma fill_one_transposed:
  assumes "fill_one fs ms0 fi = Inr (f, info)" and "snd (needs_rhos f)"
  shows "\<exists>p req. deps info = [p] \<and> needs_results f = Some [req] \<and> needs_transpose req"
proof -
  obtain info0 where fi: "fi = (f, info0)"
    and d: "all_req_deps fs ms0 (alphas info0)
              (case needs_results f of None \<Rightarrow> [] | Some reqs \<Rightarrow> reqs) = Inr (deps info)"
    using assms(1) by (cases fi) (auto simp: fill_one_def split: sum.splits)
  from assms(2) consider "f = L2" | "f = Jensen_shannon"
    by (cases f) auto
  then show ?thesis
  proof cases
    case 1
    with d show ?thesis
      by (auto simp: req_deps_def split: sum.splits list.splits dest: sym)
  next
    case 2
    with d show ?thesis
      by (auto simp: req_deps_def split: sum.splits list.splits dest: sym)
  qed
qed

lemma parse_specs_meta:
  assumes "parse_specs pf pick specs ks = Inr (fs, ms, h)" and "(f, info) \<in> set ms"
  shows "\<exists>ms0 fi. fill_one fs ms0 fi = Inr (f, info)"
proof -
  obtain ms0 ms' order where fd: "fill_deps fs ms0 ms0 = Inr ms'"
    and om: "order_metas ms' order [] = Inr ms"
    using assms(1) by (auto simp: parse_specs_def split: sum.splits prod.splits)
  have "(f, info) \<in> set ms'"
    using order_metas_set [OF om assms(2)] by simp
  then show ?thesis
    using fill_deps_set [OF fd] by blast
qed

lemma replace_func_unbound: "replace_func E ks d X_ns Y_ns f al = Inr bf \<Longrightarrow> unbound bf = f"
  by (auto simp: replace_func_def Let_def split: if_splits sum.splits)

lemma set_up_funcs_meta:
  assumes "set_up_funcs E fs ms ks d X_ns Y_ns = Inr (bfs, bms)" and "(meta, info) \<in> set bms"
  shows "(unbound meta, info) \<in> set ms"
proof -
  have m: "map_err (\<lambda>(f, info).
               case replace_func E ks d X_ns Y_ns f (alphas info) of
                 Inl e \<Rightarrow> Inl e | Inr new \<Rightarrow> Inr (new, info)) ms = Inr bms"
    using assms(1) by (auto simp: set_up_funcs_def split: sum.splits)
  obtain fi where fi: "fi \<in> set ms"
    and r: "(case fi of (f, info) \<Rightarrow>
               case replace_func E ks d X_ns Y_ns f (alphas info) of
                 Inl e \<Rightarrow> Inl e | Inr new \<Rightarrow> Inr (new, info)) = Inr (meta, info)"
    using map_err_Inr_set [OF m assms(2)] by blast
  obtain f i where "fi = (f, i)" by (cases fi)
  with r have "i = info" and "replace_func E ks d X_ns Y_ns f (alphas i) = Inr meta"
    by (auto split: sum.splits)
  with fi \<open>fi = (f, i)\<close> show ?thesis
    using replace_func_unbound by blast
qed

lemma transpose_positions_nonempty:
  assumes "(meta, info) \<in> set bms" and "deps info = [p]"
    and "needs_results (unbound meta) = Some [req]" and "needs_transpose req"
  shows "transpose_positions bms \<noteq> []"
proof -
  have "p \<in> set (transpose_positions bms)"
    unfolding transpose_positions_def using assms by (auto intro!: bexI [of _ "(meta, info)"])
  then show ?thesis by auto
qed

lemma set_up_funcs_meta_image:
  assumes "set_up_funcs E fs ms ks d X_ns Y_ns = Inr (bfs, bms)" and "(f, info) \<in> set ms"
  shows "\<exists>meta. (meta, info) \<in> set bms \<and> unbound meta = f"
proof -
  have m: "map_err (\<lambda>(f, info).
               case replace_func E ks d X_ns Y_ns f (alphas info) of
                 Inl e \<Rightarrow> Inl e | Inr new \<Rightarrow> Inr (new, info)) ms = Inr bms"
    using assms(1) by (auto simp: set_up_funcs_def split: sum.splits)
  have "\<And>g. map_err g ms = Inr bms \<Longrightarrow> (f, info) \<in> set ms \<Longrightarrow> \<exists>y \<in> set bms. g (f, info) = Inr y"
  proof -
    fix g show "map_err g ms = Inr bms \<Longrightarrow> (f, info) \<in> set ms \<Longrightarrow> \<exists>y \<in> set bms. g (f, info) = Inr y"
    proof (induction ms arbitrary: bms)
      case Nil
      then show ?case by simp
    next
      case (Cons x xs)
      then show ?case by (auto split: sum.splits)
    qed
  qed
  from this [OF m assms(2)] obtain y where y: "y \<in> set bms"
    and r: "(case replace_func E ks d X_ns Y_ns f (alphas info) of
                 Inl e \<Rightarrow> Inl e | Inr new \<Rightarrow> Inr (new, info)) = Inr y"
    by auto
  then obtain new where "replace_func E ks d X_ns Y_ns f (alphas info) = Inr new" "y = (new, info)"
    by (auto split: sum.splits)
  then show ?thesis
    using y replace_func_unbound by blast
qed

lemma plan_meta_transposed:
  assumes "parse_specs pf pick specs ks = Inr (fs, ms, h)"
    and "set_up_funcs E fs ms ks' d X_ns Y_ns = Inr (bfs, bms)"
    and "(meta, info) \<in> set bms"
    and "snd (needs_rhos (unbound meta))"
  shows "transpose_positions bms \<noteq> []"
proof -
  have "(unbound meta, info) \<in> set ms"
    using set_up_funcs_meta [OF assms(2,3)] .
  then obtain ms0 fi where "fill_one fs ms0 fi = Inr (unbound meta, info)"
    using parse_specs_meta [OF assms(1)] by blast
  then obtain p req where "deps info = [p]" "needs_results (unbound meta) = Some [req]"
    "needs_transpose req"
    using fill_one_transposed assms(4) by blast
  then show ?thesis
    using transpose_positions_nonempty [OF assms(3)] by blast
qed

lemma check_Ks_state: "check_Ks X Y s = Inr (u, s') \<Longrightarrow> s' = s"
  by (auto simp: check_Ks_def split: sum.splits option.splits if_splits)

lemma get_rhos_state:
  "get_rhos E X idx s = Inr (r, s') \<Longrightarrow>
     s' = s\<lparr>logged := logged s @ [Info ''Getting within-bag distances...'']\<rparr>"
  by (auto simp: get_rhos_def Let_def dest!: check_Ks_state split: sum.splits option.splits prod.splits)

lemma refresh_rhos_metas:
  "refresh_rhos E X old s = Inr (r, s') \<Longrightarrow> metas' s' = metas' s"
  by (auto simp: refresh_rhos_def Let_def dest!: get_rhos_state
           split: sum.splits option.splits prod.splits if_splits)

lemma cross_divergences_symmetric:
  assumes "metas' s3 = Some bms" and "transpose_positions bms \<noteq> []"
    and "indices' s3 = Some X_indices"
  shows "cross_divergences E X Y X_rhos s3 = symmetric_pass E X Y X_indices X_rhos s3"
  using assms
  by (simp add: cross_divergences_def symmetric_pass_def transform_do_sym_def get_Y_rhos_def
        build_indices_def Let_def split: sum.splits prod.splits option.splits)

lemma finalize_rhos_Some:
  "finalize_rhos s sv X_rhos (Some r) = Inr (X1, Y1) \<Longrightarrow> \<exists>r1. Y1 = Some r1"
  by (auto simp: finalize_rhos_def split: if_splits sum.splits)

lemma finalize_meta_env:
  assumes "\<And>m xr yr req cl. yr \<noteq> Some None \<Longrightarrow> mc m xr yr req cl = meta_call E m xr yr req cl"
  shows "finalize_meta (E\<lparr>meta_call := mc\<rparr>) c X1 (Some r1) mi outs
           = finalize_meta E c X1 (Some r1) mi outs"
proof -
  obtain meta info where mi: "mi = (meta, info)" by (cases mi)
  have "mc meta xr (if snd (needs_rhos (unbound meta)) then Some (Some r1) else None) req c
      = meta_call E meta xr (if snd (needs_rhos (unbound meta)) then Some (Some r1) else None) req c"
    for xr req
    by (rule assms) simp
  then show ?thesis
    by (simp add: finalize_meta_def mi cong: sum.case_cong)
qed

lemma finalize_env:
  assumes "\<And>m xr yr req cl. yr \<noteq> Some None \<Longrightarrow> mc m xr yr req cl = meta_call E m xr yr req cl"
  shows "finalize (E\<lparr>meta_call := mc\<rparr>) outputs X_rhos (Some r) s = finalize E outputs X_rhos (Some r) s"
proof -
  have "finalize_meta (E\<lparr>meta_call := mc\<rparr>) c X1 Y1 = finalize_meta E c X1 Y1"
    if "finalize_rhos s sv X_rhos (Some r) = Inr (X1, Y1)" for sv c X1 Y1
    using finalize_rhos_Some [OF that] finalize_meta_env [of mc E, OF assms]
    by (auto intro!: ext)
  then show ?thesis
    by (auto simp: finalize_def split: option.splits sum.splits prod.splits)
qed

lemma bag_rhos_env: "bag_rhos (E\<lparr>meta_call := mc\<rparr>) = bag_rhos E"
proof -
  have n: "nn_index (E\<lparr>meta_call := mc\<rparr>) = nn_index E"
    and q: "np_sqrt (E\<lparr>meta_call := mc\<rparr>) = np_sqrt E"
    by simp_all
  show ?thesis
    by (intro ext) (simp only: bag_rhos_def n q)
qed

lemma get_rhos_env: "get_rhos (E\<lparr>meta_call := mc\<rparr>) = get_rhos E"
  by (intro ext) (simp only: get_rhos_def bag_rhos_env)

lemma symmetric_pass_env:
  assumes "\<And>m xr yr req cl. yr \<noteq> Some None \<Longrightarrow> mc m xr yr req cl = meta_call E m xr yr req cl"
  shows "symmetric_pass (E\<lparr>meta_call := mc\<rparr>) X Y Xi X_rhos s3 = symmetric_pass E X Y Xi X_rhos s3"
proof -
  have e: "estimate_cross_divs (E\<lparr>meta_call := mc\<rparr>) = estimate_cross_divs E" by simp
  have f: "finalize (E\<lparr>meta_call := mc\<rparr>) outputs X_rhos (Some r) s
             = finalize E outputs X_rhos (Some r) s" for outputs X_rhos r s
    using assms by (rule finalize_env)
  show ?thesis
    by (simp only: symmetric_pass_def get_rhos_env f e)
qed

lemma replace_func_env: "replace_func (E\<lparr>meta_call := mc\<rparr>) = replace_func E"
proof -
  have j: "js_core_max_i (E\<lparr>meta_call := mc\<rparr>) = js_core_max_i E" by simp
  show ?thesis
    by (intro ext) (simp only: replace_func_def j)
qed

lemma set_up_funcs_env: "set_up_funcs (E\<lparr>meta_call := mc\<rparr>) = set_up_funcs E"
  by (intro ext) (simp only: set_up_funcs_def replace_func_env)

lemma choose_funcs_env: "choose_funcs (E\<lparr>meta_call := mc\<rparr>) = choose_funcs E"
  by (intro ext) (simp only: choose_funcs_def set_up_funcs_env)

lemma refresh_rhos_env: "refresh_rhos (E\<lparr>meta_call := mc\<rparr>) = refresh_rhos E"
  by (intro ext) (simp only: refresh_rhos_def get_rhos_env)

text \<open>
  C9. Let the plan of the object be one that \<^verbatim>\<open>_parse_specs\<close> returns, and let it
  schedule a meta function that needs the rho arrays of Y (\<^verbatim>\<open>needs_rhos[1]\<close>: \<^verbatim>\<open>l2\<close>
  and \<^verbatim>\<open>jensen_shannon\<close>). Whenever \<^verbatim>\<open>transform\<close> reaches line 226 (specialization,
  the bag-size check and the radii of X have succeeded):

  \<^item> the set of lines 226--229 is not empty, because the single requirement of that meta
    has \<^verbatim>\<open>needs_transpose\<close>, so the local \<^verbatim>\<open>do_sym\<close> is truthy whatever \<^verbatim>\<open>self.do_sym\<close>
    is;
  \<^item> \<^verbatim>\<open>transform\<close> is the symmetric pass: \<^verbatim>\<open>Y_rhos\<close> is computed by
    \<^verbatim>\<open>_get_rhos(Y, Y_indices)\<close>, and the kernel and \<^verbatim>\<open>_finalize\<close> are handed that value,
    not \<^verbatim>\<open>None\<close>;
  \<^item> no meta function is ever called with \<^verbatim>\<open>None\<close> for \<^verbatim>\<open>Y_rhos\<close>: replacing the meta
    functions by any others that agree with them except when handed \<^verbatim>\<open>None\<close> for
    \<^verbatim>\<open>Y_rhos\<close> does not change what \<^verbatim>\<open>transform\<close> returns.
\<close>

theorem needs_Y_rhos_forces_symmetric_pass:
  assumes bp: "base' s = Some bp"
    and plan: "parse_specs pf pick specs ks = Inr (funcs_base' bp, metas_base' bp, h)"
    and meta: "(f, info) \<in> set (metas_base' bp)" and needs: "snd (needs_rhos f)"
    and feat: "features' s = Some X" and old: "max_K' s = Some old_max_K"
    and choose: "choose_funcs E X (Some Y) s = Inr (u1, s1)"
    and check: "check_Ks X (Some Y) s1 = Inr (u2, s2)"
    and refresh: "refresh_rhos E X old_max_K s2 = Inr (X_rhos, s3)"
    and idx: "indices' s3 = Some X_indices"
  shows "(\<exists>bms. metas' s3 = Some bms \<and> transpose_positions bms \<noteq> [])
    \<and> transform E Y s = symmetric_pass E X Y X_indices X_rhos s3
    \<and> (\<forall>mc. (\<forall>m xr yr req cl. yr \<noteq> Some None \<longrightarrow>
                 mc m xr yr req cl = meta_call E m xr yr req cl) \<longrightarrow>
             transform (E\<lparr>meta_call := mc\<rparr>) Y s = transform E Y s)"
proof -
  obtain bp' kmax fs ms where bp': "base' s = Some bp'"
    and su: "set_up_funcs E (funcs_base' bp') (metas_base' bp') (Ks s) (fdim X) (n_pts X)
                (map_option n_pts (Some Y)) = Inr (fs, ms)"
    and s1: "s1 = s\<lparr>funcs' := Some fs, metas' := Some ms,
                 max_K' := Some (fold_k_needed
                   (max kmax (case max_K' s of None \<Rightarrow> 0 | Some k \<Rightarrow> k)) fs)\<rparr>"
    using choose_funcs_fields [OF choose] by blast
  have eq: "bp' = bp" using bp bp' by simp
  obtain bmeta where bm: "(bmeta, info) \<in> set ms" and un: "unbound bmeta = f"
    using set_up_funcs_meta_image [OF su] meta eq by blast
  have tp: "transpose_positions ms \<noteq> []"
    using plan_meta_transposed [OF plan su [unfolded eq] bm] needs un by simp
  have s2: "s2 = s1" using check by (rule check_Ks_state)
  have m3: "metas' s3 = Some ms"
    using refresh_rhos_metas [OF refresh] s2 s1 by simp
  have t: "transform E' Y s = cross_divergences E' X Y X_rhos s3"
    if "choose_funcs E' = choose_funcs E" and "refresh_rhos E' = refresh_rhos E" for E'
    by (simp add: transform_def feat old that choose check refresh)
  have sym: "cross_divergences E' X Y X_rhos s3 = symmetric_pass E' X Y X_indices X_rhos s3"
    for E' :: "('a, 'b) env"
    using m3 tp idx by (rule cross_divergences_symmetric)
  have main: "transform E Y s = symmetric_pass E X Y X_indices X_rhos s3"
    using t [of E] sym [of E] by simp
  have indep: "transform (E\<lparr>meta_call := mc\<rparr>) Y s = transform E Y s"
    if mc: "\<forall>m xr yr req cl. yr \<noteq> Some None \<longrightarrow> mc m xr yr req cl = meta_call E m xr yr req cl"
    for mc
  proof -
    have "transform (E\<lparr>meta_call := mc\<rparr>) Y s
            = symmetric_pass (E\<lparr>meta_call := mc\<rparr>) X Y X_indices X_rhos s3"
      using t [of "E\<lparr>meta_call := mc\<rparr>"] sym [of "E\<lparr>meta_call := mc\<rparr>"]
      by (simp add: choose_funcs_env refresh_rhos_env)
    also have "\<dots> = symmetric_pass E X Y X_indices X_rhos s3"
      using mc by (intro symmetric_pass_env) simp
    finally show ?thesis using main by simp
  qed
  show ?thesis
    using m3 tp main indep by blast
qed


theorem needs_Y_rhos_forces_symmetric_pass_witness:
  "init example_env [''l2''] [2, 3] False True (1 / 2) True = Inr l2_estimator
   \<and> map_sum fst snd (fit example_env five_points False l2_estimator) = Inr l2_fitted
   \<and> parse_specs float_table (\<lambda>_. 0) [''l2''] [2, 3]
       = Inr ([(Linear, \<lparr>alphas = None, pos = [- 1]\<rparr>)],
              [(L2, \<lparr>alphas = None, pos = [0], deps = [- 1]\<rparr>)], 1)
   \<and> snd (needs_rhos L2)
   \<and> \<not> do_sym l2_fitted
   \<and> choose_funcs example_env five_points (Some six_points) l2_fitted
       = Inr ((), l2_fitted\<lparr>funcs' := Some [(Chosen Linear None [2, 3] 1 [5] (Some [6]) None,
                                              \<lparr>alphas = None, pos = [- 1]\<rparr>)]\<rparr>)
   \<and> metas' (l2_fitted\<lparr>funcs' := Some [(Chosen Linear None [2, 3] 1 [5] (Some [6]) None,
                                         \<lparr>alphas = None, pos = [- 1]\<rparr>)]\<rparr>)
       = Some [(Partial L2 None [2, 3] 1, \<lparr>alphas = None, pos = [0], deps = [- 1]\<rparr>)]
   \<and> transpose_positions
         [(Partial L2 None [2, 3] 1, \<lparr>alphas = None, pos = [0], deps = [- 1]\<rparr>)] = [- 1]
   \<and> transform example_env six_points l2_fitted
       = symmetric_pass example_env five_points six_points [FLANNIndex [0, 1, 3, 7, 12]]
           [Some [[3, 7], [2, 6], [3, 4], [5, 6], [9, 11]]]
           (l2_fitted\<lparr>funcs' := Some [(Chosen Linear None [2, 3] 1 [5] (Some [6]) None,
                                       \<lparr>alphas = None, pos = [- 1]\<rparr>)]\<rparr>)
   \<and> transform none_rejecting_env six_points l2_fitted
       = transform example_env six_points l2_fitted
   \<and> map_sum fst fst (transform none_rejecting_env six_points l2_fitted)
       = Inr (Forward_only [Meta_result L2 0 [Base_result 1]])"
proof -
  let ?s1 = "l2_fitted\<lparr>funcs' := Some [(Chosen Linear None [2, 3] 1 [5] (Some [6]) None,
                                       \<lparr>alphas = None, pos = [- 1]\<rparr>)]\<rparr>"
  let ?bp = "\<lparr>funcs_base' = [(Linear, \<lparr>alphas = None, pos = [- 1]\<rparr>)],
               metas_base' = [(L2, \<lparr>alphas = None, pos = [0], deps = [- 1]\<rparr>)],
               n_meta_only' = 1, save_all_Ks' = False\<rparr>"
  let ?mc = "\<lambda>meta X_rhos Y_rhos required clamp0.
          case Y_rhos of
            Some None \<Rightarrow> Inl PyTypeError
          | _ \<Rightarrow> symbolic_meta meta X_rhos Y_rhos required clamp0"
  have i: "init example_env [''l2''] [2, 3] False True (1 / 2) True = Inr l2_estimator"
    by code_simp
  have f: "map_sum fst snd (fit example_env five_points False l2_estimator) = Inr l2_fitted"
    by code_simp
  have bp: "base' l2_fitted = Some ?bp"
    by code_simp
  have p: "parse_specs float_table (\<lambda>_. 0) [''l2''] [2, 3]
       = Inr (funcs_base' ?bp, metas_base' ?bp, 1)"
    by code_simp
  have m: "(L2, \<lparr>alphas = None, pos = [0], deps = [- 1]\<rparr>) \<in> set (metas_base' ?bp)"
    by simp
  have n: "snd (needs_rhos L2)"
    by simp
  have d: "\<not> do_sym l2_fitted"
    by code_simp
  have feat: "features' l2_fitted = Some five_points"
    by code_simp
  have old: "max_K' l2_fitted = Some 3"
    by code_simp
  have c: "choose_funcs example_env five_points (Some six_points) l2_fitted = Inr ((), ?s1)"
    by code_simp
  have k: "check_Ks five_points (Some six_points) ?s1 = Inr ((), ?s1)"
    by code_simp
  have r: "refresh_rhos example_env five_points 3 ?s1
             = Inr ([Some [[3, 7], [2, 6], [3, 4], [5, 6], [9, 11]]], ?s1)"
    by code_simp
  have x: "indices' ?s1 = Some [FLANNIndex [0, 1, 3, 7, 12]]"
    by code_simp
  have ms: "metas' ?s1
       = Some [(Partial L2 None [2, 3] 1, \<lparr>alphas = None, pos = [0], deps = [- 1]\<rparr>)]"
    by code_simp
  have tp: "transpose_positions
         [(Partial L2 None [2, 3] 1, \<lparr>alphas = None, pos = [0], deps = [- 1]\<rparr>)] = [- 1]"
    by code_simp
  have out: "map_sum fst fst (transform none_rejecting_env six_points l2_fitted)
       = Inr (Forward_only [Meta_result L2 0 [Base_result 1]])"
    by code_simp
  have env: "none_rejecting_env = example_env\<lparr>meta_call := ?mc\<rparr>"
    by (simp add: none_rejecting_env_def)
  have mc: "\<forall>m xr yr req cl. yr \<noteq> Some None \<longrightarrow>
              ?mc m xr yr req cl = meta_call example_env m xr yr req cl"
    by (simp add: example_env_def split: option.splits)
  note th = needs_Y_rhos_forces_symmetric_pass [OF bp p m n feat old c k r x]
  have t1: "transform example_env six_points l2_fitted
       = symmetric_pass example_env five_points six_points [FLANNIndex [0, 1, 3, 7, 12]]
           [Some [[3, 7], [2, 6], [3, 4], [5, 6], [9, 11]]] ?s1"
    using th [THEN conjunct2, THEN conjunct1] .
  have "transform (example_env\<lparr>meta_call := ?mc\<rparr>) six_points l2_fitted
       = transform example_env six_points l2_fitted"
    using th [THEN conjunct2, THEN conjunct2, THEN spec, of ?mc, THEN mp, OF mc] .
  then have t2: "transform none_rejecting_env six_points l2_fitted
       = transform example_env six_points l2_fitted"
    by (simp only: env)
  from p have p': "parse_specs float_table (\<lambda>_. 0) [''l2''] [2, 3]
       = Inr ([(Linear, \<lparr>alphas = None, pos = [- 1]\<rparr>)],
              [(L2, \<lparr>alphas = None, pos = [0], deps = [- 1]\<rparr>)], 1)"
    by simp
  show ?thesis
    using i f p' n d c ms tp t1 t2 out by (intro conjI)
qed

section \<open>A max K that grows in \<^verbatim>\<open>transform\<close>\<close>













section \<open>\<^verbatim>\<open>fit\<close> with \<^verbatim>\<open>skip_rhos=True\<close>\<close>

text \<open>
  C10. The claim: \<^verbatim>\<open>fit(X, skip_rhos=True)\<close> leaves the cached radii unset, the next
  \<^verbatim>\<open>transform\<close> computes them, and the returned tensor equals the one after an eager
  \<^verbatim>\<open>fit(X)\<close>. \<^verbatim>\<open>fit\<close> assigns \<^verbatim>\<open>self.rhos_\<close> only when \<^verbatim>\<open>skip_rhos\<close> is false and
  never deletes it. On an object already fitted to a bag of five points, a second
  \<^verbatim>\<open>fit\<close> to a bag of six points with \<^verbatim>\<open>skip_rhos=True\<close> keeps the five rows of radii
  of the first bag; \<^verbatim>\<open>transform\<close> finds \<^verbatim>\<open>rhos_\<close> set, does not recompute, and hands
  these radii to the kernel together with the six points, while after an eager second
  \<^verbatim>\<open>fit\<close> the kernel gets the six rows of the second bag.
\<close>

theorem refit_with_skip_rhos_keeps_stale_radii:
  "map_sum fst (\<lambda>x. (features' (snd x), rhos' (snd x)))
     (and_then (fit radii_env five_points False kl_estimator) (fit radii_env six_points True))
     = Inr (Some six_points, Some [Some [[3, 7], [2, 6], [3, 4], [5, 6], [9, 11]]])
   \<and> map_sum fst fst
       (and_then (and_then (fit radii_env five_points False kl_estimator)
                   (fit radii_env six_points True))
          (transform radii_env seven_points))
     = Inr (Forward_only [From_radii 0 [Some [[3, 7], [2, 6], [3, 4], [5, 6], [9, 11]]]])
   \<and> map_sum fst fst
       (and_then (and_then (fit radii_env five_points False kl_estimator)
                   (fit radii_env six_points False))
          (transform radii_env seven_points))
     = Inr (Forward_only
              [From_radii 0 [Some [[3, 7], [2, 6], [3, 4], [5, 6], [8, 9], [13, 17]]]])"
  by code_simp

section \<open>Ill-formed tokens\<close>

text \<open>
  C7, as amended. The claim: for every token that is unknown, malformed or has a
  parameter-presence mismatch, \<^verbatim>\<open>_parse_specs\<close> raises an error that names the token, and
  all well-formed tokens are accepted. The loop over the specs stops at the first token
  at which it fails, and that may be a repeated request, whose error names the repeated
  token (see the run that follows the proof). Proved here, for every \<^verbatim>\<open>float\<close> and every
  choice of \<^verbatim>\<open>set.pop\<close>: when the tokens before a token are well-formed and request
  pairwise different functions and alphas, and the token is not well-formed,
  \<open>parse_specs\<close> raises an error that names this token (its name if the name is unknown,
  the token itself if the presence of the alpha mismatches, its alpha part if \<^verbatim>\<open>float\<close>
  rejects it); a list of well-formed tokens with pairwise different requests is
  accepted; and a list that holds a token that is not well-formed is never accepted.
\<close>

theorem ill_formed_token_is_reported:
  assumes good: "\<forall>s \<in> set pre. well_formed pf s"
    and d: "distinct (map (request pf) pre)"
  shows "(\<not> well_formed pf spec \<longrightarrow>
            (\<exists>e. parse_specs pf pick (pre @ spec # post) kk = Inl e \<and> error_names e spec))
       \<and> (\<exists>plan. parse_specs pf pick pre kk = Inr plan)
       \<and> (\<forall>specs. list_ex (\<lambda>s. \<not> well_formed pf s) specs \<longrightarrow>
             (\<exists>e. parse_specs pf pick specs kk = Inl e))"
proof -
  obtain toks where toks: "map_err (check_spec pf) pre = Inr toks"
    and req: "map (\<lambda>t. Some (snd t)) toks = map (request pf) pre"
    using map_err_check_spec [OF good] by blast
  have dk: "distinct (map snd toks)" using distinct_requests [OF req] d by simp
  have bad: "\<exists>e. parse_specs pf pick (pre @ spec # post) kk = Inl e \<and> error_names e spec"
    if nw: "\<not> well_formed pf spec"
  proof -
    obtain e where e: "check_spec pf spec = Inl e" and n: "error_names e spec"
      using check_spec_ill_formed [OF nw] by blast
    have "parse_specs pf pick (pre @ spec # post) kk = Inl e"
      using toks dk e by (rule parse_specs_first_invalid)
    with n show ?thesis by blast
  qed
  have ok: "\<exists>plan. parse_specs pf pick pre kk = Inr plan"
    using parse_specs_well_formed [OF good d, of pick kk] by blast
  have any: "\<exists>e. parse_specs pf pick specs kk = Inl e"
    if "list_ex (\<lambda>s. \<not> well_formed pf s) specs" for specs
    using that parse_specs_ill_formed [of _ specs pf pick kk] by (auto simp: list_ex_iff)
  show ?thesis using bad ok any by blast
qed


theorem ill_formed_token_is_reported_witness:
  "list_all (well_formed (py_float example_env)) [''kl'', ''renyi:.8'']
   \<and> distinct (map (request (py_float example_env)) [''kl'', ''renyi:.8''])
   \<and> \<not> well_formed (py_float example_env) ''bogus''
   \<and> (\<exists>e. parse_specs (py_float example_env) (set_pop_choice example_env)
              ([''kl'', ''renyi:.8''] @ ''bogus'' # [''l2'']) [3] = Inl e
          \<and> error_names e ''bogus'')
   \<and> parse_specs (py_float example_env) (set_pop_choice example_env)
        [''kl'', ''renyi:.8'', ''bogus'', ''l2''] [3] = Inl (NotKnownFunction ''bogus'')
   \<and> (\<exists>plan. parse_specs (py_float example_env) (set_pop_choice example_env)
                 [''kl'', ''renyi:.8''] [3] = Inr plan)
   \<and> parse_specs (py_float example_env) (set_pop_choice example_env) [''kl:0.5''] [3]
        = Inl (DoesntNeedAlpha ''kl'' ''kl:0.5'')
   \<and> parse_specs (py_float example_env) (set_pop_choice example_env) [''renyi''] [3]
        = Inl (NeedsAlpha ''renyi'' ''renyi'')
   \<and> parse_specs (py_float example_env) (set_pop_choice example_env) [''alpha:abc''] [3]
        = Inl (CouldNotConvertFloat ''abc'')"
proof -
  have g: "\<forall>s \<in> set [''kl'', ''renyi:.8'']. well_formed (py_float example_env) s"
    by code_simp
  have g': "list_all (well_formed (py_float example_env)) [''kl'', ''renyi:.8'']"
    by code_simp
  have d: "distinct (map (request (py_float example_env)) [''kl'', ''renyi:.8''])"
    by code_simp
  have b: "\<not> well_formed (py_float example_env) ''bogus''"
    by code_simp
  note th = ill_formed_token_is_reported [OF g d,
      of "''bogus''" "set_pop_choice example_env" "[''l2'']" "[3]"]
  have c1: "\<exists>e. parse_specs (py_float example_env) (set_pop_choice example_env)
              ([''kl'', ''renyi:.8''] @ ''bogus'' # [''l2'']) [3] = Inl e
          \<and> error_names e ''bogus''"
    using th [THEN conjunct1] b by simp
  have c2: "\<exists>plan. parse_specs (py_float example_env) (set_pop_choice example_env)
                 [''kl'', ''renyi:.8''] [3] = Inr plan"
    using th [THEN conjunct2, THEN conjunct1] .
  have e1: "parse_specs (py_float example_env) (set_pop_choice example_env)
        [''kl'', ''renyi:.8'', ''bogus'', ''l2''] [3] = Inl (NotKnownFunction ''bogus'')"
    by code_simp
  have e2: "parse_specs (py_float example_env) (set_pop_choice example_env) [''kl:0.5''] [3]
        = Inl (DoesntNeedAlpha ''kl'' ''kl:0.5'')"
    by code_simp
  have e3: "parse_specs (py_float example_env) (set_pop_choice example_env) [''renyi''] [3]
        = Inl (NeedsAlpha ''renyi'' ''renyi'')"
    by code_simp
  have e4: "parse_specs (py_float example_env) (set_pop_choice example_env) [''alpha:abc''] [3]
        = Inl (CouldNotConvertFloat ''abc'')"
    by code_simp
  show ?thesis
    using g' d b c1 e1 c2 e2 e3 e4 by (intro conjI)
qed

text \<open>
  In \<^verbatim>\<open>['kl', 'kl', 'bogus']\<close> the token \<^verbatim>\<open>bogus\<close> has an unknown name, and the error is
  that of the second \<^verbatim>\<open>kl\<close>, which does not name \<^verbatim>\<open>bogus\<close>; and the two well-formed
  tokens of \<^verbatim>\<open>['kl', 'kl']\<close> are not accepted.
\<close>

theorem later_bad_token_counterexample:
  "unknown_name ''bogus''
   \<and> well_formed (py_float example_env) ''kl''
   \<and> parse_specs (py_float example_env) (set_pop_choice example_env)
        [''kl'', ''kl'', ''bogus''] [3] = Inl (PassedMoreThanOnce ''kl'')
   \<and> \<not> error_names (PassedMoreThanOnce ''kl'') ''bogus''
   \<and> parse_specs (py_float example_env) (set_pop_choice example_env)
        [''kl'', ''kl''] [3] = Inl (PassedMoreThanOnce ''kl'')"
  by code_simp

section \<open>Repeated requests\<close>

text \<open>
  C3, as amended. The claim: a spec list with two requests for the same parameterized
  function with two distinct alphas gets two distinct slots in the order of the tokens,
  and a spec list with a repeated request raises the duplicate error. Both fail when
  another token of the list makes \<^verbatim>\<open>_parse_specs\<close> raise first (see the run that follows
  the proof). Proved here, for a spec list whose tokens are all well-formed: when the
  requests are pairwise different, \<open>parse_specs\<close> returns a plan in which the slot of
  every token is its index in the list, so two requests for one function with two
  alphas have two slots, ordered as the tokens are; and at the first token that repeats
  an earlier request (the same function, with the same alpha if it has one),
  \<open>parse_specs\<close> raises the duplicate error for that token, so a list with a repeated
  request always raises a duplicate error.
\<close>

theorem repeated_requests:
  assumes good: "\<forall>s \<in> set specs. well_formed pf s"
  shows "(distinct (map (request pf) specs) \<longrightarrow>
            (\<exists>plan. parse_specs pf pick specs kk = Inr plan
               \<and> (\<forall>i f a. i < length specs \<and> request pf (specs ! i) = Some (f, a) \<longrightarrow>
                     plan_pos plan f a = Some (int i))))
       \<and> (\<forall>pre spec post f.
             specs = pre @ spec # post \<and> distinct (map (request pf) pre)
             \<and> request pf spec \<in> set (map (request pf) pre) \<and> spec_func spec = Some f \<longrightarrow>
             parse_specs pf pick specs kk
               = Inl (duplicate_error (fst (split_spec spec)) f (spec_alpha pf spec)))
       \<and> (\<not> distinct (map (request pf) specs) \<longrightarrow>
             (\<exists>n f a. parse_specs pf pick specs kk = Inl (duplicate_error n f a)))"
proof -
  have first: "\<exists>plan. parse_specs pf pick specs kk = Inr plan
               \<and> (\<forall>i f a. i < length specs \<and> request pf (specs ! i) = Some (f, a) \<longrightarrow>
                     plan_pos plan f a = Some (int i))"
    if d: "distinct (map (request pf) specs)"
    using parse_specs_well_formed [OF good d, of pick kk] by blast
  have dup: "parse_specs pf pick specs kk
               = Inl (duplicate_error (fst (split_spec spec)) f (spec_alpha pf spec))"
    if sp: "specs = pre @ spec # post" and d: "distinct (map (request pf) pre)"
      and old: "request pf spec \<in> set (map (request pf) pre)" and f: "spec_func spec = Some f"
    for pre spec post f
  proof -
    have gp: "\<forall>s \<in> set pre. well_formed pf s" and gs: "well_formed pf spec"
      using good sp by simp_all
    obtain toks where toks: "map_err (check_spec pf) pre = Inr toks"
      and req: "map (\<lambda>t. Some (snd t)) toks = map (request pf) pre"
      using map_err_check_spec [OF gp] by blast
    have dk: "distinct (map snd toks)" using distinct_requests [OF req] d by simp
    have c: "check_spec pf spec = Inr (fst (split_spec spec), f, spec_alpha pf spec)"
      using check_spec_well_formed [OF gs] f by auto
    have "request pf spec = Some (f, spec_alpha pf spec)"
      using f by (simp add: request_def)
    then have "Some (f, spec_alpha pf spec) \<in> set (map (\<lambda>t. Some (snd t)) toks)"
      using old req by simp
    then have "(f, spec_alpha pf spec) \<in> set (map snd toks)" by auto
    then show ?thesis
      using parse_specs_first_duplicate [OF toks dk c] sp by simp
  qed
  have some: "\<exists>n f a. parse_specs pf pick specs kk = Inl (duplicate_error n f a)"
    if nd: "\<not> distinct (map (request pf) specs)"
  proof -
    obtain rpre r rpost where dec: "map (request pf) specs = rpre @ r # rpost"
      and dp: "distinct rpre" and mem: "r \<in> set rpre"
      using first_duplicate [OF nd] by blast
    let ?n = "length rpre"
    have len: "?n < length specs" using dec by (metis length_map length_append
          less_add_same_cancel1 list.size(4) zero_less_Suc add_Suc_right)
    let ?pre = "take ?n specs" and ?spec = "specs ! ?n" and ?post = "drop (Suc ?n) specs"
    have sp: "specs = ?pre @ ?spec # ?post" using len by (simp add: id_take_nth_drop)
    have rp: "map (request pf) ?pre = rpre"
      using dec by (metis append_eq_conv_conj take_map)
    have rs: "request pf ?spec = r"
      using dec len by (metis nth_append_length nth_map)
    obtain f where f: "spec_func ?spec = Some f"
      using check_spec_well_formed [of pf ?spec] good len by auto
    have "parse_specs pf pick specs kk
               = Inl (duplicate_error (fst (split_spec ?spec)) f (spec_alpha pf ?spec))"
      using dup [OF sp _ _ f] rp rs dp mem by simp
    then show ?thesis by blast
  qed
  show ?thesis using first dup some by blast
qed


theorem repeated_requests_witness:
  "list_all (well_formed (py_float example_env))
      [''renyi:.8'', ''alpha:0.5'', ''renyi:.9'', ''alpha:0.8'']
   \<and> distinct (map (request (py_float example_env))
        [''renyi:.8'', ''alpha:0.5'', ''renyi:.9'', ''alpha:0.8''])
   \<and> map (request (py_float example_env)) [''renyi:.8'', ''alpha:0.5'', ''renyi:.9'', ''alpha:0.8'']
       = [Some (Renyi, Some (4 / 5)), Some (Alpha_div, Some (1 / 2)),
          Some (Renyi, Some (9 / 10)), Some (Alpha_div, Some (4 / 5))]
   \<and> (\<exists>plan. parse_specs (py_float example_env) (set_pop_choice example_env)
                 [''renyi:.8'', ''alpha:0.5'', ''renyi:.9'', ''alpha:0.8''] [3] = Inr plan
          \<and> plan_pos plan Renyi (Some (4 / 5)) = Some 0
          \<and> plan_pos plan Alpha_div (Some (1 / 2)) = Some 1
          \<and> plan_pos plan Renyi (Some (9 / 10)) = Some 2
          \<and> plan_pos plan Alpha_div (Some (4 / 5)) = Some 3)
   \<and> parse_specs (py_float example_env) (set_pop_choice example_env)
        [''renyi:.8'', ''alpha:0.5'', ''renyi:.9'', ''alpha:0.8''] [3]
       = Inr ([(Alpha_div, \<lparr>alphas = Some [Some (4 / 5), Some (1 / 2), Some (9 / 10)],
                              pos = [3, 1, - 1]\<rparr>)],
              [(Renyi, \<lparr>alphas = Some [Some (4 / 5), Some (9 / 10)], pos = [0, 2],
                          deps = [3, - 1]\<rparr>)], 1)
   \<and> list_all (well_formed (py_float example_env)) [''alpha:0.5'', ''kl'', ''alpha:.5'']
   \<and> \<not> distinct (map (request (py_float example_env)) [''alpha:0.5'', ''kl'', ''alpha:.5''])
   \<and> (\<exists>n f a. parse_specs (py_float example_env) (set_pop_choice example_env)
                  [''alpha:0.5'', ''kl'', ''alpha:.5''] [3] = Inl (duplicate_error n f a))
   \<and> parse_specs (py_float example_env) (set_pop_choice example_env)
        [''alpha:0.5'', ''kl'', ''alpha:.5''] [3]
       = Inl (AlphaPassedMoreThanOnce ''alpha'' (Some (1 / 2)))
   \<and> parse_specs (py_float example_env) (set_pop_choice example_env) [''l2'', ''kl'', ''l2''] [3]
       = Inl (PassedMoreThanOnce ''l2'')"
proof -
  let ?A = "[''renyi:.8'', ''alpha:0.5'', ''renyi:.9'', ''alpha:0.8'']"
  let ?B = "[''alpha:0.5'', ''kl'', ''alpha:.5'']"
  have gA: "\<forall>s \<in> set ?A. well_formed (py_float example_env) s" by code_simp
  have gA': "list_all (well_formed (py_float example_env)) ?A" by code_simp
  have dA: "distinct (map (request (py_float example_env)) ?A)" by code_simp
  have rA: "map (request (py_float example_env)) ?A
       = [Some (Renyi, Some (4 / 5)), Some (Alpha_div, Some (1 / 2)),
          Some (Renyi, Some (9 / 10)), Some (Alpha_div, Some (4 / 5))]"
    by code_simp
  have gB: "\<forall>s \<in> set ?B. well_formed (py_float example_env) s" by code_simp
  have gB': "list_all (well_formed (py_float example_env)) ?B" by code_simp
  have dB: "\<not> distinct (map (request (py_float example_env)) ?B)" by code_simp
  note thA = repeated_requests [OF gA, of "set_pop_choice example_env" "[3]"]
  note thB = repeated_requests [OF gB, of "set_pop_choice example_env" "[3]"]
  obtain plan where p: "parse_specs (py_float example_env) (set_pop_choice example_env) ?A [3]
                          = Inr plan"
    and pos: "\<And>i f a. i < length ?A \<Longrightarrow> request (py_float example_env) (?A ! i) = Some (f, a) \<Longrightarrow>
                plan_pos plan f a = Some (int i)"
    using thA [THEN conjunct1] dA by blast
  have r0: "request (py_float example_env) (?A ! 0) = Some (Renyi, Some (4 / 5))"
    and r1: "request (py_float example_env) (?A ! 1) = Some (Alpha_div, Some (1 / 2))"
    and r2: "request (py_float example_env) (?A ! 2) = Some (Renyi, Some (9 / 10))"
    and r3: "request (py_float example_env) (?A ! 3) = Some (Alpha_div, Some (4 / 5))"
    by code_simp+
  have c1: "\<exists>plan. parse_specs (py_float example_env) (set_pop_choice example_env) ?A [3] = Inr plan
          \<and> plan_pos plan Renyi (Some (4 / 5)) = Some 0
          \<and> plan_pos plan Alpha_div (Some (1 / 2)) = Some 1
          \<and> plan_pos plan Renyi (Some (9 / 10)) = Some 2
          \<and> plan_pos plan Alpha_div (Some (4 / 5)) = Some 3"
    using p pos [OF _ r0] pos [OF _ r1] pos [OF _ r2] pos [OF _ r3] by simp
  have vA: "parse_specs (py_float example_env) (set_pop_choice example_env) ?A [3]
       = Inr ([(Alpha_div, \<lparr>alphas = Some [Some (4 / 5), Some (1 / 2), Some (9 / 10)],
                              pos = [3, 1, - 1]\<rparr>)],
              [(Renyi, \<lparr>alphas = Some [Some (4 / 5), Some (9 / 10)], pos = [0, 2],
                          deps = [3, - 1]\<rparr>)], 1)"
    by code_simp
  have c2: "\<exists>n f a. parse_specs (py_float example_env) (set_pop_choice example_env) ?B [3]
                       = Inl (duplicate_error n f a)"
    using thB [THEN conjunct2, THEN conjunct2] dB by blast
  have vB: "parse_specs (py_float example_env) (set_pop_choice example_env) ?B [3]
       = Inl (AlphaPassedMoreThanOnce ''alpha'' (Some (1 / 2)))"
    by code_simp
  have vC: "parse_specs (py_float example_env) (set_pop_choice example_env)
              [''l2'', ''kl'', ''l2''] [3] = Inl (PassedMoreThanOnce ''l2'')"
    by code_simp
  show ?thesis
    using gA' dA rA c1 vA gB' dB c2 vB vC by (intro conjI)
qed

text \<open>
  \<^verbatim>\<open>['bogus', 'kl', 'kl']\<close> requests \<^verbatim>\<open>kl\<close> twice and the error is that of the unknown
  name; \<^verbatim>\<open>['alpha:0.5', 'alpha:0.8', 'bogus']\<close> requests \<^verbatim>\<open>alpha\<close> with two alphas and no
  slot is assigned.
\<close>

theorem repeated_request_counterexample:
  "parse_specs (py_float example_env) (set_pop_choice example_env)
        [''bogus'', ''kl'', ''kl''] [3] = Inl (NotKnownFunction ''bogus'')
   \<and> NotKnownFunction ''bogus'' \<noteq> duplicate_error ''kl'' Kl None
   \<and> request (py_float example_env) ''alpha:0.5'' = Some (Alpha_div, Some (1 / 2))
   \<and> request (py_float example_env) ''alpha:0.8'' = Some (Alpha_div, Some (4 / 5))
   \<and> parse_specs (py_float example_env) (set_pop_choice example_env)
        [''alpha:0.5'', ''alpha:0.8'', ''bogus''] [3] = Inl (NotKnownFunction ''bogus'')"
  by code_simp


end
